theory Spec2Isabelle
  imports Complex_Main "HOL-Library.Word" "HOL-Library.Sublist"
begin

unbundle bit_operations_syntax

section \<open>Python values used by \<open>homr_dataset.py\<close>\<close>

text \<open>
  A \<open>bytes\<close> object is a list of 8-bit words; indexing it gives a Python \<open>int\<close> in
  \<open>0..255\<close>. An \<open>np.int64\<close> is a 64-bit word, read as a number with \<open>sint\<close>. Every
  \<open>raise\<close>, failed \<open>assert\<close> and library exception of the source is a value of
  \<open>error\<close>, named after the Python exception.
\<close>

type_synonym byte = "8 word"
type_synonym int64 = "64 word"

datatype error =
    AssertionError
  | IndexError
  | OverflowError
  | ValueError
  | UnsupportedTag byte   \<comment> \<open>\<open>ValueError("Unsupported data tag {}".format(data[offset]))\<close>\<close>
  | UnicodeDecodeError
  | KeyError
  | AttributeError
  | RuntimeError nat nat  \<comment> \<open>the size mismatch of \<open>evaluate\<close>: \<open>len(predictions)\<close>, \<open>len(gold)\<close>\<close>
  | DecodeImageError      \<comment> \<open>any exception of \<open>torchvision.io.decode_image\<close>\<close>

definition bind_res :: "error + 'a \<Rightarrow> ('a \<Rightarrow> error + 'b) \<Rightarrow> error + 'b" where
  "bind_res r f = (case r of Inl e \<Rightarrow> Inl e | Inr x \<Rightarrow> f x)"

definition py_index :: "'a list \<Rightarrow> int \<Rightarrow> error + 'a" where
  \<comment> \<open>\<open>xs[i]\<close>: a negative index counts from the end, out of range raises.\<close>
  "py_index xs i =
     (let n = int (length xs); j = (if i < 0 then i + n else i)
      in if 0 \<le> j \<and> j < n then Inr (xs ! nat j) else Inl IndexError)"

definition py_clamp :: "nat \<Rightarrow> int \<Rightarrow> nat" where
  \<comment> \<open>how a slice bound is normalised against a length\<close>
  "py_clamp n i = (if i < 0 then nat (max (i + int n) 0) else min (nat i) n)"

definition py_slice :: "'a list \<Rightarrow> int \<Rightarrow> int \<Rightarrow> 'a list" where
  \<comment> \<open>\<open>xs[a:b]\<close>: never raises; the bounds are clamped.\<close>
  "py_slice xs a b =
     (let lo = py_clamp (length xs) a; hi = py_clamp (length xs) b
      in take (hi - lo) (drop lo xs))"

definition wrap64 :: "int \<Rightarrow> int" where
  \<comment> \<open>the result of an \<open>np.int64\<close> addition: two's complement wrap-around\<close>
  "wrap64 i = sint (word_of_int i :: int64)"

section \<open>The varint reader: \<open>get_value\<close> and \<open>get_value_of_kind\<close>\<close>

text \<open>
  The closure variables \<open>data\<close> and \<open>offset\<close> become an argument and a cursor that is
  passed through. \<open>offset\<close> starts every record as the Python \<open>int\<close> 0 and becomes an
  \<open>np.int64\<close> at the first \<open>offset += length\<close> (a Python \<open>int\<close> plus an \<open>np.int64\<close> is an
  \<open>np.int64\<close>) and stays one for the rest of the record. The flag \<open>is_np\<close> records which
  of the two it is, because line 91 depends on it:
  \<^item> Python \<open>int\<close> offset: \<open>(data[offset] & 0x7F) << (7 * (offset - start))\<close> is an unbounded
    Python \<open>int\<close>, and \<open>value |= ...\<close> converts it to \<open>np.int64\<close>, which raises when it
    is \<open>2^63\<close> or more (\<open>OverflowError\<close> in NumPy 2; NumPy 1 raises \<open>TypeError\<close> for an
    operand in \<open>2^63..2^64-1\<close>, both are \<open>OverflowError\<close> here);
  \<^item> \<open>np.int64\<close> offset: the shift count is an \<open>np.int64\<close>, so the shift is NumPy's
    64-bit \<open>left_shift\<close>, which drops the bits shifted out and is 0 for a count of 64 or
    more, as \<open>push_bit\<close> on a 64-bit word.
  A \<open>bytes\<close> object is shorter than \<open>2^63\<close>, so \<open>offset + 1\<close> never wraps.
\<close>

record cursor =
  offset :: int
  is_np :: bool

definition or_shifted :: "bool \<Rightarrow> int64 \<Rightarrow> byte \<Rightarrow> int \<Rightarrow> error + int64" where
  \<comment> \<open>\<open>value |= low << count\<close> of line 91, \<open>low = data[offset] & 0x7F\<close>\<close>
  "or_shifted np value low count =
     (if np then Inr (value OR push_bit (nat count) (ucast low))
      else (let x = uint low * 2 ^ nat count
            in if x < 2 ^ 63 then Inr (value OR word_of_int x) else Inl OverflowError))"

function get_value_loop ::
  "byte list \<Rightarrow> bool \<Rightarrow> int \<Rightarrow> int64 \<Rightarrow> int \<Rightarrow> error + (int64 \<times> int)" where
  \<comment> \<open>the \<open>while\<close> of lines 90-91\<close>
  "get_value_loop data np start value off =
     (case py_index data (off - 1) of
        Inl e \<Rightarrow> Inl e
      | Inr p \<Rightarrow>
          if p AND 0x80 = 0 then Inr (value, off)
          else (case py_index data off of
                  Inl e \<Rightarrow> Inl e
                | Inr b \<Rightarrow>
                    (case or_shifted np value (b AND 0x7F) (7 * (off - start)) of
                       Inl e \<Rightarrow> Inl e
                     | Inr value' \<Rightarrow> get_value_loop data np start value' (off + 1))))"
  by pat_completeness auto
termination
  by (relation "measure (\<lambda>(data, np, start, value, off). nat (int (length data) - off))")
     (auto simp: py_index_def Let_def split: if_splits)

declare get_value_loop.simps [simp del]

definition get_value :: "byte list \<Rightarrow> cursor \<Rightarrow> error + (int64 \<times> cursor)" where
  "get_value data cur =
     bind_res (py_index data (offset cur)) (\<lambda>b.
     bind_res (get_value_loop data (is_np cur) (offset cur) (ucast (b AND 0x7F)) (offset cur + 1))
       (\<lambda>(value, off). Inr (value, cur\<lparr>offset := off\<rparr>)))"

definition get_value_of_kind :: "byte \<Rightarrow> byte list \<Rightarrow> cursor \<Rightarrow> error + (int64 \<times> cursor)" where
  "get_value_of_kind kind data cur =
     bind_res (py_index data (offset cur)) (\<lambda>b.
       if b = kind then get_value data (cur\<lparr>offset := offset cur + 1\<rparr>) else Inl AssertionError)"

section \<open>The outer framing of a record (lines 102-106)\<close>

text \<open>
  The open file is the list of bytes not read yet; \<open>file.read(n)\<close> returns at most \<open>n\<close> of
  them and never raises for a short file. A size of \<open>2^63\<close> or more does not fit the
  index type and makes \<open>read\<close> raise \<open>OverflowError\<close>. The memory a large read needs is
  not modelled.
\<close>

definition unpack_le64 :: "byte list \<Rightarrow> int" where
  \<comment> \<open>\<open>struct.unpack("<Q", length)\<close>\<close>
  "unpack_le64 bs = foldr (\<lambda>b acc. uint b + 256 * acc) bs 0"

definition file_read :: "nat \<Rightarrow> byte list \<Rightarrow> byte list \<times> byte list" where
  "file_read n file = (take n file, drop n file)"

definition read_record :: "byte list \<Rightarrow> error + (byte list \<times> byte list)" where
  "read_record file =
     (let (len8, f1) = file_read 8 file in
      if length len8 \<noteq> 8 then Inl AssertionError
      else let len = unpack_le64 len8; (crc1, f2) = file_read 4 f1 in
        if length crc1 \<noteq> 4 then Inl AssertionError
        else if 2 ^ 63 \<le> len then Inl OverflowError
        else let (data, f3) = file_read (nat len) f2 in
          if int (length data) \<noteq> len then Inl AssertionError
          else let (crc2, f4) = file_read 4 f3 in
            if length crc2 \<noteq> 4 then Inl AssertionError else Inr (data, f4))"

section \<open>Keys, arrays and the two dictionaries\<close>

text \<open>
  A key is the \<open>str\<close> that \<open>bytes.decode("utf-8")\<close> returns. The decoder is strict and
  injective on the byte strings it accepts, so a key is represented by its UTF-8 bytes and
  \<open>utf8_valid\<close> says when decoding does not raise (the well-formed sequences of the
  Unicode standard: no overlong forms, no surrogates, nothing above U+10FFFF).
\<close>

type_synonym key = "byte list"

definition utf8_cont :: "byte \<Rightarrow> bool" where
  "utf8_cont b = (0x80 \<le> b \<and> b \<le> 0xBF)"

fun utf8_valid :: "byte list \<Rightarrow> bool" where
  "utf8_valid [] = True"
| "utf8_valid (b0 # bs) =
     (if b0 < 0x80 then utf8_valid bs
      else if 0xC2 \<le> b0 \<and> b0 \<le> 0xDF then
        (case bs of b1 # r \<Rightarrow> utf8_cont b1 \<and> utf8_valid r | _ \<Rightarrow> False)
      else if 0xE0 \<le> b0 \<and> b0 \<le> 0xEF then
        (case bs of
           b1 # b2 # r \<Rightarrow>
             (if b0 = 0xE0 then 0xA0 \<le> b1 \<and> b1 \<le> 0xBF
              else if b0 = 0xED then 0x80 \<le> b1 \<and> b1 \<le> 0x9F
              else utf8_cont b1) \<and> utf8_cont b2 \<and> utf8_valid r
         | _ \<Rightarrow> False)
      else if 0xF0 \<le> b0 \<and> b0 \<le> 0xF4 then
        (case bs of
           b1 # b2 # b3 # r \<Rightarrow>
             (if b0 = 0xF0 then 0x90 \<le> b1 \<and> b1 \<le> 0xBF
              else if b0 = 0xF4 then 0x80 \<le> b1 \<and> b1 \<le> 0x8F
              else utf8_cont b1) \<and> utf8_cont b2 \<and> utf8_cont b3 \<and> utf8_valid r
         | _ \<Rightarrow> False)
      else False)"

definition decode_utf8 :: "byte list \<Rightarrow> error + key" where
  "decode_utf8 bs = (if utf8_valid bs then Inr bs else Inl UnicodeDecodeError)"

text \<open>
  An \<open>array.array\<close> is its type code and its buffer. \<open>len\<close> counts items, \<open>frombytes\<close>
  appends raw bytes and raises unless they make whole items, \<open>append\<close> converts one
  value to the item type. Items are stored in the byte order of the host, taken to be
  little-endian. The conversion of an integer to a 32-bit float is the parameter
  \<open>f32\<close> of everything below.
\<close>

datatype typecode = TC_B | TC_q | TC_f

record pyarray =
  typecode :: typecode
  raw :: "byte list"

fun itemsize :: "typecode \<Rightarrow> nat" where
  "itemsize TC_B = 1"
| "itemsize TC_q = 8"
| "itemsize TC_f = 4"

definition array_len :: "pyarray \<Rightarrow> nat" where
  "array_len a = length (raw a) div itemsize (typecode a)"

definition frombytes :: "pyarray \<Rightarrow> byte list \<Rightarrow> error + pyarray" where
  "frombytes a bs =
     (if length bs mod itemsize (typecode a) \<noteq> 0 then Inl ValueError
      else Inr (a\<lparr>raw := raw a @ bs\<rparr>))"

fun le_bytes :: "nat \<Rightarrow> nat \<Rightarrow> byte list" where
  "le_bytes 0 x = []"
| "le_bytes (Suc n) x = of_nat (x mod 256) # le_bytes n (x div 256)"

definition array_append :: "(int64 \<Rightarrow> 32 word) \<Rightarrow> pyarray \<Rightarrow> int64 \<Rightarrow> error + pyarray" where
  "array_append f32 a v =
     (case typecode a of
        TC_B \<Rightarrow> if 0 \<le> sint v \<and> sint v \<le> 255 then Inr (a\<lparr>raw := raw a @ [ucast v]\<rparr>)
                else Inl OverflowError
      | TC_q \<Rightarrow> Inr (a\<lparr>raw := raw a @ le_bytes 8 (unat v)\<rparr>)
      | TC_f \<Rightarrow> Inr (a\<lparr>raw := raw a @ le_bytes 4 (unat (f32 v))\<rparr>))"

definition new_array :: "byte \<Rightarrow> pyarray" where
  \<comment> \<open>\<open>array.array({0x0A: "B", 0x1A: "q", 0x12: "f"}.get(data[offset], "B"))\<close>\<close>
  "new_array b =
     \<lparr>typecode = (if b = 0x0A then TC_B else if b = 0x1A then TC_q
                   else if b = 0x12 then TC_f else TC_B),
      raw = []\<rparr>"

record store =
  arrays :: "key \<rightharpoonup> pyarray"
  indices :: "key \<rightharpoonup> nat list"

definition empty_store :: store where
  "empty_store = \<lparr>arrays = Map.empty, indices = Map.empty\<rparr>"

definition dict_get :: "(key \<rightharpoonup> 'v) \<Rightarrow> key \<Rightarrow> error + 'v" where
  "dict_get m k = (case m k of None \<Rightarrow> Inl KeyError | Some v \<Rightarrow> Inr v)"

section \<open>Decoding one payload (lines 108-134)\<close>

definition advance :: "cursor \<Rightarrow> int64 \<Rightarrow> cursor" where
  \<comment> \<open>\<open>offset += length\<close>: the sum is an \<open>np.int64\<close> and wraps\<close>
  "advance cur len = \<lparr>offset = wrap64 (offset cur + sint len), is_np = True\<rparr>"

definition entry_header :: "byte list \<Rightarrow> cursor \<Rightarrow> store \<Rightarrow> error + (key \<times> cursor \<times> store)" where
  \<comment> \<open>lines 112-118\<close>
  "entry_header data cur st =
     bind_res (get_value_of_kind 0x0A data cur) (\<lambda>(_, c1).
     bind_res (get_value_of_kind 0x0A data c1) (\<lambda>(len, c2).
     bind_res (decode_utf8 (py_slice data (offset c2) (offset (advance c2 len)))) (\<lambda>key.
     bind_res (get_value_of_kind 0x12 data (advance c2 len)) (\<lambda>(_, c3).
       if arrays st key = None then
         bind_res (py_index data (offset c3)) (\<lambda>b.
           Inr (key, c3, st\<lparr>arrays := (arrays st)(key \<mapsto> new_array b),
                               indices := (indices st)(key \<mapsto> [0])\<rparr>))
       else Inr (key, c3, st)))))"

definition value_length :: "byte \<Rightarrow> byte list \<Rightarrow> cursor \<Rightarrow> error + (int64 \<times> cursor)" where
  \<comment> \<open>\<open>get_value_of_kind(kind) and get_value_of_kind(0x0A)\<close>: \<open>and\<close> returns its first
      operand when that is zero, without evaluating the second\<close>
  "value_length kind data cur =
     bind_res (get_value_of_kind kind data cur) (\<lambda>(a, c1).
       if a = 0 then Inr (a, c1) else get_value_of_kind 0x0A data c1)"

function append_varints ::
  "(int64 \<Rightarrow> 32 word) \<Rightarrow> byte list \<Rightarrow> int \<Rightarrow> cursor \<Rightarrow> pyarray \<Rightarrow> error + (cursor \<times> pyarray)" where
  \<comment> \<open>\<open>while offset < target_offset: arrays[key].append(get_value())\<close>\<close>
  "append_varints f32 data target cur a =
     (if offset cur < target then
        (case get_value data cur of
           Inl e \<Rightarrow> Inl e
         | Inr (v, cur') \<Rightarrow>
             (case array_append f32 a v of
                Inl e \<Rightarrow> Inl e
              | Inr a' \<Rightarrow> append_varints f32 data target cur' a'))
      else Inr (cur, a))"
  by pat_completeness auto
termination
proof (relation "measure (\<lambda>(f32, data, target, cur, a). nat (target - offset cur))")
  show "wf (measure (\<lambda>(f32, data, target, cur, a). nat (target - offset cur)))" by simp
next
  fix f32 :: "int64 \<Rightarrow> 32 word" and data target cur a x2 v cur' a'
  assume lt: "offset cur < target" and g: "get_value data cur = Inr x2" and x: "(v, cur') = x2"
  have loop: "\<And>np start acc off r. get_value_loop data np start acc off = Inr r \<Longrightarrow> off \<le> snd r"
  proof -
    fix np start acc off r
    show "get_value_loop data np start acc off = Inr r \<Longrightarrow> off \<le> snd r"
    proof (induction data np start acc off rule: get_value_loop.induct)
      case (1 data np start acc off)
      from "1.prems" show ?case
        by (subst (asm) get_value_loop.simps)
           (fastforce split: sum.splits if_splits dest: "1.IH")
    qed
  qed
  from g x have "offset cur < offset cur'"
    by (auto simp: get_value_def bind_res_def split: sum.splits dest!: loop)
  with lt show "((f32, data, target, cur', a'), (f32, data, target, cur, a))
      \<in> measure (\<lambda>(f32, data, target, cur, a). nat (target - offset cur))"
    by simp
qed

declare append_varints.simps [simp del]

definition np_frombuffer_f4 :: "byte list \<Rightarrow> int \<Rightarrow> int \<Rightarrow> error + byte list" where
  \<comment> \<open>\<open>np.frombuffer(data, np.dtype("<f4"), count, offset).astype(np.float32).tobytes()\<close>:
      a negative count takes all that follows the offset\<close>
  "np_frombuffer_f4 data count off =
     (let n = int (length data) in
      if off < 0 \<or> n < off then Inl ValueError
      else if count < 0 then
        (if (n - off) mod 4 \<noteq> 0 then Inl ValueError else Inr (drop (nat off) data))
      else if n - off < 4 * count then Inl ValueError
      else Inr (take (nat (4 * count)) (drop (nat off) data)))"

definition close_example :: "key \<Rightarrow> pyarray \<Rightarrow> store \<Rightarrow> error + store" where
  \<comment> \<open>the array as the branch left it, then line 134:
      \<open>indices[key].append(len(arrays[key]))\<close>\<close>
  "close_example key a st =
     bind_res (dict_get (indices st) key) (\<lambda>idx.
       Inr (st\<lparr>arrays := (arrays st)(key \<mapsto> a),
              indices := (indices st)(key \<mapsto> idx @ [array_len a])\<rparr>))"

definition decode_value ::
  "(int64 \<Rightarrow> 32 word) \<Rightarrow> byte list \<Rightarrow> key \<Rightarrow> cursor \<Rightarrow> store \<Rightarrow> error + (cursor \<times> store)" where
  \<comment> \<open>lines 120-134\<close>
  "decode_value f32 data key cur st =
     bind_res (py_index data (offset cur)) (\<lambda>b.
       if b = 0x0A then
         bind_res (value_length 0x0A data cur) (\<lambda>(len, c).
         bind_res (dict_get (arrays st) key) (\<lambda>a.
         bind_res (frombytes a (py_slice data (offset c) (offset (advance c len)))) (\<lambda>a'.
         bind_res (close_example key a' st) (\<lambda>st'. Inr (advance c len, st')))))
       else if b = 0x1A then
         bind_res (value_length 0x1A data cur) (\<lambda>(len, c).
         bind_res (dict_get (arrays st) key) (\<lambda>a.
         bind_res (append_varints f32 data (offset (advance c len)) c a) (\<lambda>(c', a').
         bind_res (close_example key a' st) (\<lambda>st'. Inr (c', st')))))
       else if b = 0x12 then
         bind_res (value_length 0x12 data cur) (\<lambda>(len, c).
         bind_res (np_frombuffer_f4 data (sint len div 4) (offset c)) (\<lambda>floats.
         bind_res (dict_get (arrays st) key) (\<lambda>a.
         bind_res (frombytes a floats) (\<lambda>a'.
         bind_res (close_example key a' st) (\<lambda>st'. Inr (advance c len, st'))))))
       else Inl (UnsupportedTag b))"

definition decode_entry ::
  "(int64 \<Rightarrow> 32 word) \<Rightarrow> byte list \<Rightarrow> cursor \<Rightarrow> store \<Rightarrow> error + (key \<times> cursor \<times> store)" where
  \<comment> \<open>one pass of the body of the \<open>while\<close> of line 111\<close>
  "decode_entry f32 data cur st =
     bind_res (entry_header data cur st) (\<lambda>(key, c, st1).
     bind_res (decode_value f32 data key c st1) (\<lambda>(c', st'). Inr (key, c', st')))"

text \<open>
  The \<open>while offset < len(data)\<close> of line 111 need not end: a length read with an
  \<open>np.int64\<close> offset can be negative and move the offset back. Not returning is \<open>None\<close>.
\<close>

partial_function (option) decode_entries ::
  "(int64 \<Rightarrow> 32 word) \<Rightarrow> byte list \<Rightarrow> cursor \<Rightarrow> store \<Rightarrow> (error + store) option" where
  "decode_entries f32 data cur st =
     (if offset cur < int (length data) then
        (case decode_entry f32 data cur st of
           Inl e \<Rightarrow> Some (Inl e)
         | Inr (key, cur', st') \<Rightarrow> decode_entries f32 data cur' st')
      else Some (Inr st))"

declare decode_entries.simps [code]

definition decode_record ::
  "(int64 \<Rightarrow> 32 word) \<Rightarrow> byte list \<Rightarrow> store \<Rightarrow> (error + store) option" where
  \<comment> \<open>lines 108-134\<close>
  "decode_record f32 data st =
     (case get_value_of_kind 0x0A data \<lparr>offset = 0, is_np = False\<rparr> of
        Inl e \<Rightarrow> Some (Inl e)
      | Inr (len, c) \<Rightarrow>
          if int (length data) - offset c = sint len then decode_entries f32 data c st
          else Some (Inl AssertionError))"

fun load_loop ::
  "(int64 \<Rightarrow> 32 word) \<Rightarrow> nat \<Rightarrow> byte list \<Rightarrow> store \<Rightarrow> (error + store) option" where
  \<comment> \<open>\<open>for _ in range(items)\<close>\<close>
  "load_loop f32 0 file st = Some (Inr st)"
| "load_loop f32 (Suc n) file st =
     (case read_record file of
        Inl e \<Rightarrow> Some (Inl e)
      | Inr (data, file') \<Rightarrow>
          (case decode_record f32 data st of
             None \<Rightarrow> None
           | Some (Inl e) \<Rightarrow> Some (Inl e)
           | Some (Inr st') \<Rightarrow> load_loop f32 n file' st'))"

definition load_data :: "(int64 \<Rightarrow> 32 word) \<Rightarrow> byte list \<Rightarrow> nat \<Rightarrow> (error + store) option" where
  \<comment> \<open>\<open>_load_data(path, items)\<close>, the file at \<open>path\<close> given by its content\<close>
  "load_data f32 file items = load_loop f32 items file empty_store"

text \<open>
  Runs of the two loops as relations, built from the same \<open>decode_entry\<close> and
  \<open>read_record\<close>: \<open>entries_steps\<close> relates a state of the \<open>while\<close> of line 111 to a
  state some passes later and lists the keys of the entries decoded in between;
  \<open>load_run\<close> does the same for whole records and lists the keys record by record.
\<close>

inductive entries_steps ::
  "(int64 \<Rightarrow> 32 word) \<Rightarrow> byte list \<Rightarrow> cursor \<times> store \<Rightarrow> key list \<Rightarrow> cursor \<times> store \<Rightarrow> bool"
  for f32 data where
  no_entry: "entries_steps f32 data s [] s"
| one_more: "offset cur < int (length data) \<Longrightarrow>
     decode_entry f32 data cur st = Inr (key, cur', st') \<Longrightarrow>
     entries_steps f32 data (cur', st') keys s'' \<Longrightarrow>
     entries_steps f32 data (cur, st) (key # keys) s''"

inductive load_run ::
  "(int64 \<Rightarrow> 32 word) \<Rightarrow> nat \<Rightarrow> byte list \<Rightarrow> store \<Rightarrow> (byte list \<times> key list) list \<Rightarrow> byte list \<Rightarrow> store \<Rightarrow> bool"
  for f32 where
  no_record: "load_run f32 0 file st [] file st"
| one_record: "read_record file = Inr (data, file') \<Longrightarrow>
     get_value_of_kind 0x0A data \<lparr>offset = 0, is_np = False\<rparr> = Inr (len, c) \<Longrightarrow>
     int (length data) - offset c = sint len \<Longrightarrow>
     entries_steps f32 data (c, st) keys (c', st') \<Longrightarrow>
     \<not> offset c' < int (length data) \<Longrightarrow>
     load_run f32 n file' st' recs file'' st'' \<Longrightarrow>
     load_run f32 (Suc n) file st ((data, keys) # recs) file'' st''"

section \<open>The dataset (lines 23-53)\<close>

text \<open>
  \<open>torchvision.io.decode_image\<close> with the \<open>permute\<close> that follows is the parameter
  \<open>dec\<close>: it takes the bytes of the image and returns the image or raises.
  \<open>torch.frombuffer(buffer, dtype, count, offset)\<close> reads \<open>count\<close> items at the byte
  \<open>offset\<close> of the buffer; it raises for an empty buffer, a count of zero and a range
  that leaves the buffer, and a negative count takes all that follows the offset.
\<close>

definition torch_frombuffer :: "byte list \<Rightarrow> int \<Rightarrow> int \<Rightarrow> int \<Rightarrow> error + byte list" where
  "torch_frombuffer buf elsize count off =
     (let len = int (length buf) in
      if \<not> (0 < len \<and> count \<noteq> 0) then Inl ValueError
      else if \<not> (0 \<le> off \<and> off < len) then Inl ValueError
      else if \<not> (0 < count \<or> (len - off) mod elsize = 0) then Inl ValueError
      else let n = (if count < 0 then (len - off) div elsize else count) in
        if len < off + n * elsize then Inl ValueError
        else Inr (take (nat (n * elsize)) (drop (nat off) buf)))"

fun int64_items :: "byte list \<Rightarrow> int64 list" where
  \<comment> \<open>a buffer read as 64-bit items, least significant byte first\<close>
  "int64_items (b0 # b1 # b2 # b3 # b4 # b5 # b6 # b7 # bs) =
     word_of_int (unpack_le64 [b0, b1, b2, b3, b4, b5, b6, b7]) # int64_items bs"
| "int64_items _ = []"

definition image_key :: key where
  "image_key = [0x69, 0x6D, 0x61, 0x67, 0x65]"

definition marks_key :: key where
  "marks_key = [0x6D, 0x61, 0x72, 0x6B, 0x73]"

record 'img element =
  image :: 'img
  marks :: "int64 list"

definition decode_item :: "(byte list \<Rightarrow> error + 'img) \<Rightarrow> store \<Rightarrow> int \<Rightarrow> error + 'img element" where
  \<comment> \<open>\<open>_decode(data, indices, index)\<close>\<close>
  "decode_item dec st index =
     bind_res (dict_get (arrays st) image_key) (\<lambda>image_array.
     bind_res (dict_get (indices st) image_key) (\<lambda>image_index.
     bind_res (py_index (butlast image_index) index) (\<lambda>start.
     bind_res (py_index (tl image_index) index) (\<lambda>stop.
     bind_res (torch_frombuffer (raw image_array) 1 (int stop - int start) (int start)) (\<lambda>bytes.
     bind_res (dec bytes) (\<lambda>img.
     bind_res (dict_get (indices st) marks_key) (\<lambda>marks_index.
     bind_res (py_index (tl marks_index) index) (\<lambda>mstop.
     bind_res (py_index (butlast marks_index) index) (\<lambda>mstart.
       if int mstop - int mstart = 0 then Inr \<lparr>image = img, marks = []\<rparr>
       else
         bind_res (dict_get (arrays st) marks_key) (\<lambda>marks_array.
         bind_res (torch_frombuffer (raw marks_array) 8 (int mstop - int mstart) (8 * int mstart))
           (\<lambda>bytes. Inr \<lparr>image = img, marks = int64_items bytes\<rparr>)))))))))))"

fun decode_all :: "(byte list \<Rightarrow> error + 'img) \<Rightarrow> store \<Rightarrow> nat list \<Rightarrow> error + 'img element list" where
  \<comment> \<open>\<open>[self._decode(arrays, indices, i) for i in ...]\<close>\<close>
  "decode_all dec st [] = Inr []"
| "decode_all dec st (i # is) =
     (case decode_item dec st (int i) of
        Inl e \<Rightarrow> Inl e
      | Inr x \<Rightarrow> (case decode_all dec st is of Inl e \<Rightarrow> Inl e | Inr xs \<Rightarrow> Inr (x # xs)))"

text \<open>
  The attributes of a \<open>Dataset\<close> object: \<open>_data\<close> is \<open>None\<close> when decoding on demand,
  and \<open>_arrays\<close> and \<open>_indices\<close> are only set then.
\<close>

record 'img dataset =
  ds_size :: nat
  ds_data :: "'img element list option"
  ds_store :: "store option"

definition dataset_init ::
  "(byte list \<Rightarrow> error + 'img) \<Rightarrow> (int64 \<Rightarrow> 32 word) \<Rightarrow> byte list \<Rightarrow> nat \<Rightarrow> bool \<Rightarrow>
   (error + 'img dataset) option" where
  \<comment> \<open>\<open>Dataset.__init__(path, size, decode_on_demand)\<close>, \<open>sz\<close> for \<open>size\<close>\<close>
  "dataset_init dec f32 file sz decode_on_demand =
     (case load_data f32 file sz of
        None \<Rightarrow> None
      | Some (Inl e) \<Rightarrow> Some (Inl e)
      | Some (Inr st) \<Rightarrow>
          if decode_on_demand
          then Some (Inr \<lparr>ds_size = sz, ds_data = None, ds_store = Some st\<rparr>)
          else (case decode_all dec st [0 ..< sz] of
                  Inl e \<Rightarrow> Some (Inl e)
                | Inr xs \<Rightarrow> Some (Inr \<lparr>ds_size = sz, ds_data = Some xs, ds_store = None\<rparr>)))"

definition getitem :: "(byte list \<Rightarrow> error + 'img) \<Rightarrow> 'img dataset \<Rightarrow> int \<Rightarrow> error + 'img element" where
  \<comment> \<open>\<open>Dataset.__getitem__(index)\<close>; \<open>if self._data\<close> is false for \<open>None\<close> and for
      the empty list\<close>
  "getitem dec ds index =
     (if ds_data ds \<noteq> None \<and> ds_data ds \<noteq> Some [] then py_index (the (ds_data ds)) index
      else (case ds_store ds of
              None \<Rightarrow> Inl AttributeError
            | Some st \<Rightarrow> decode_item dec st index))"

section \<open>The edit distance metric and the evaluation (lines 138-164)\<close>

text \<open>
  Modelled from the spec: \<open>torchaudio.functional.edit_distance\<close> is library code that is
  not under \<open>src/\<close>. The spec describes it as the classic Levenshtein distance over token
  sequences, with cost 1 for a substitution, an insertion and a deletion.
\<close>

fun edit_distance :: "'a list \<Rightarrow> 'a list \<Rightarrow> nat" where
  "edit_distance [] ys = length ys"
| "edit_distance (x # xs) [] = Suc (length xs)"
| "edit_distance (x # xs) (y # ys) =
     (if x = y then edit_distance xs ys
      else Suc (min (edit_distance xs ys)
                    (min (edit_distance (x # xs) ys) (edit_distance xs (y # ys)))))"

text \<open>
  Modelled from the spec: \<open>torchmetrics.MeanMetric\<close> is library code that is not under
  \<open>src/\<close>. Its state is the sum of the values it was given and their number, \<open>compute\<close>
  is the quotient, which is not a number (\<open>None\<close>) before the first value. Python floats
  and the tensors of the metric are taken as exact rational numbers: rounding is not
  modelled.
\<close>

record 'a metric =
  ignore_index :: "'a option"
  mean_value :: rat
  weight :: rat

definition metric_init :: "'a option \<Rightarrow> 'a metric" where
  "metric_init ignore = \<lparr>ignore_index = ignore, mean_value = 0, weight = 0\<rparr>"

definition mean_update :: "'a metric \<Rightarrow> rat list \<Rightarrow> 'a metric" where
  "mean_update m vs =
     (if vs = [] then m
      else m\<lparr>mean_value := mean_value m + sum_list vs, weight := weight m + of_nat (length vs)\<rparr>)"

definition compute :: "'a metric \<Rightarrow> rat option" where
  "compute m = (if weight m = 0 then None else Some (mean_value m / weight m))"

definition example_score :: "'a option \<Rightarrow> 'a list \<Rightarrow> 'a list \<Rightarrow> rat" where
  \<comment> \<open>the body of the loop of \<open>update\<close>, lines 146-149\<close>
  "example_score ignore y_pred y_true =
     (let y_true' = (case ignore of None \<Rightarrow> y_true | Some i \<Rightarrow> filter (\<lambda>y. y \<noteq> i) y_true);
          y_pred' = (case ignore of None \<Rightarrow> y_pred | Some i \<Rightarrow> filter (\<lambda>y. y \<noteq> i) y_pred)
      in of_nat (edit_distance y_pred' y_true') /
         of_nat (if length y_true' = 0 then 1 else length y_true'))"

definition update :: "'a metric \<Rightarrow> 'a list list \<Rightarrow> 'a list list \<Rightarrow> 'a metric" where
  \<comment> \<open>\<open>EditDistanceMetric.update(y_preds, y_trues)\<close>\<close>
  "update m y_preds y_trues =
     mean_update m (map (\<lambda>(y_pred, y_true). example_score (ignore_index m) y_pred y_true)
                        (zip y_preds y_trues))"

fun marks_to_strings :: "string list \<Rightarrow> int64 list \<Rightarrow> error + string list" where
  \<comment> \<open>\<open>[HOMRDataset.MARKS[mark] for mark in np.array(example["marks"])]\<close>\<close>
  "marks_to_strings MARKS [] = Inr []"
| "marks_to_strings MARKS (mark # ms) =
     (case py_index MARKS (sint mark) of
        Inl e \<Rightarrow> Inl e
      | Inr s \<Rightarrow> (case marks_to_strings MARKS ms of Inl e \<Rightarrow> Inl e | Inr ss \<Rightarrow> Inr (s # ss)))"

definition iter_bound :: "'img dataset \<Rightarrow> nat" where
  \<comment> \<open>an index from which \<open>__getitem__\<close> raises\<close>
  "iter_bound ds =
     (if ds_data ds \<noteq> None \<and> ds_data ds \<noteq> Some [] then length (the (ds_data ds))
      else (case ds_store ds of
              None \<Rightarrow> 0
            | Some st \<Rightarrow> (case indices st image_key of None \<Rightarrow> 0 | Some idx \<Rightarrow> length idx - 1)))"

text \<open>
  \<open>Dataset\<close> has no \<open>__iter__\<close>, so \<open>for example in gold_dataset\<close> calls
  \<open>__getitem__\<close> with 0, 1, 2, ... and ends at the first \<open>IndexError\<close>; any other exception
  leaves the loop, and so does an \<open>IndexError\<close> of the lookup in \<open>MARKS\<close>.
\<close>

function gold_from ::
  "string list \<Rightarrow> (byte list \<Rightarrow> error + 'img) \<Rightarrow> 'img dataset \<Rightarrow> nat \<Rightarrow> error + string list list" where
  "gold_from MARKS dec ds i =
     (case getitem dec ds (int i) of
        Inl e \<Rightarrow> if e = IndexError then Inr [] else Inl e
      | Inr x \<Rightarrow>
          (case marks_to_strings MARKS (marks x) of
             Inl e \<Rightarrow> Inl e
           | Inr g \<Rightarrow>
               (case gold_from MARKS dec ds (Suc i) of
                  Inl e \<Rightarrow> Inl e
                | Inr gs \<Rightarrow> Inr (g # gs))))"
  by pat_completeness auto
termination
proof (relation "measure (\<lambda>(MARKS, dec, ds, i). iter_bound ds - i)")
  show "wf (measure (\<lambda>(MARKS, dec, ds, i). iter_bound ds - i))" by simp
next
  fix MARKS :: "string list" and dec :: "byte list \<Rightarrow> error + 'img" and ds :: "'img dataset"
    and i :: nat and x :: "'img element" and g :: "string list"
  assume g: "getitem dec ds (int i) = Inr x"
  have "i < iter_bound ds"
  proof (cases "ds_data ds \<noteq> None \<and> ds_data ds \<noteq> Some []")
    case True
    with g show ?thesis
      by (auto simp: getitem_def iter_bound_def py_index_def Let_def split: if_splits)
  next
    case False
    with g obtain st where st: "ds_store ds = Some st" and d: "decode_item dec st (int i) = Inr x"
      by (auto simp: getitem_def split: option.splits)
    from d obtain idx where idx: "indices st image_key = Some idx"
      and "py_index (butlast idx) (int i) \<noteq> Inl IndexError"
      by (auto simp: decode_item_def bind_res_def dict_get_def split: sum.splits option.splits)
    then have "i < length idx - 1"
      by (auto simp: py_index_def Let_def split: if_splits)
    with False st idx show ?thesis by (auto simp: iter_bound_def)
  qed
  then show "((MARKS, dec, ds, Suc i), (MARKS, dec, ds, i))
      \<in> measure (\<lambda>(MARKS, dec, ds, i). iter_bound ds - i)"
    by simp
qed

declare gold_from.simps [simp del]

definition evaluate ::
  "string list \<Rightarrow> (byte list \<Rightarrow> error + 'img) \<Rightarrow> 'img dataset \<Rightarrow> string list list \<Rightarrow>
   error + rat option" where
  \<comment> \<open>\<open>HOMRDataset.evaluate(gold_dataset, predictions)\<close>\<close>
  "evaluate MARKS dec gold_dataset predictions =
     bind_res (gold_from MARKS dec gold_dataset 0) (\<lambda>gold.
       if length predictions \<noteq> length gold
       then Inl (RuntimeError (length predictions) (length gold))
       else Inr (map_option (\<lambda>r. 100 * r)
              (compute (foldl (\<lambda>m (gold_sentence, prediction). update m [prediction] [gold_sentence])
                              (metric_init None) (zip gold predictions)))))"

text \<open>
  For stating the claims: the removal of the ignore token that \<open>update\<close> does, and the
  scores that one call of \<open>update\<close> hands to the mean.
\<close>

definition filter_ignore :: "'a option \<Rightarrow> 'a list \<Rightarrow> 'a list" where
  "filter_ignore ignore ys = (case ignore of None \<Rightarrow> ys | Some i \<Rightarrow> filter (\<lambda>y. y \<noteq> i) ys)"

definition batch_scores :: "'a option \<Rightarrow> 'a list list \<times> 'a list list \<Rightarrow> rat list" where
  "batch_scores ignore b =
     (case b of (y_preds, y_trues) \<Rightarrow>
        map (\<lambda>(y_pred, y_true). example_score ignore y_pred y_true) (zip y_preds y_trues))"

text \<open>
  The bytes of one framed record, for stating what the framer accepts: the 8-byte length
  of the payload, a 4-byte field, the payload, a 4-byte field.
\<close>

definition frame :: "byte list \<times> byte list \<times> byte list \<Rightarrow> byte list" where
  "frame r = (case r of (c1, p, c2) \<Rightarrow> le_bytes 8 (length p) @ c1 @ p @ c2)"

definition frame_ok :: "byte list \<times> byte list \<times> byte list \<Rightarrow> bool" where
  "frame_ok r = (case r of (c1, p, c2) \<Rightarrow> length c1 = 4 \<and> length c2 = 4 \<and> length p < 2 ^ 63)"

definition payload :: "byte list \<times> byte list \<times> byte list \<Rightarrow> byte list" where
  "payload r = (case r of (c1, p, c2) \<Rightarrow> p)"

text \<open>The payloads of the records decoded one after the other, as the loop of line 101 does.\<close>

fun decode_records ::
  "(int64 \<Rightarrow> 32 word) \<Rightarrow> byte list list \<Rightarrow> store \<Rightarrow> (error + store) option" where
  "decode_records f32 [] st = Some (Inr st)"
| "decode_records f32 (p # ps) st =
     (case decode_record f32 p st of
        None \<Rightarrow> None
      | Some (Inl e) \<Rightarrow> Some (Inl e)
      | Some (Inr st') \<Rightarrow> decode_records f32 ps st')"

section \<open>Invariants of the two dictionaries\<close>

text \<open>
  \<open>array_extends\<close>: the same type code and the old buffer a prefix of the new one.
  \<open>store_ok\<close>: the two dictionaries have the same keys, and every index array starts
  with 0, is sorted and ends with the length of its array. \<open>closes\<close> counts the entries
  an index array has after its initial 0. \<open>step_ok\<close> and \<open>grows\<close> say how a run that
  decoded the entries with the keys \<open>keys\<close> changed the dictionaries.
\<close>

definition array_extends :: "pyarray \<Rightarrow> pyarray \<Rightarrow> bool" where
  "array_extends a a' = (typecode a' = typecode a \<and> prefix (raw a) (raw a'))"

definition store_ok :: "store \<Rightarrow> bool" where
  "store_ok st = (\<forall>k.
     (case arrays st k of
        None \<Rightarrow> indices st k = None
      | Some a \<Rightarrow> (case indices st k of
                    None \<Rightarrow> False
                  | Some idx \<Rightarrow> idx \<noteq> [] \<and> hd idx = 0 \<and> sorted idx \<and> last idx = array_len a)))"

definition closes :: "store \<Rightarrow> key \<Rightarrow> nat" where
  "closes st k = (case indices st k of None \<Rightarrow> 0 | Some idx \<Rightarrow> length idx - 1)"

definition step_ok :: "store \<Rightarrow> key list \<Rightarrow> store \<Rightarrow> bool" where
  "step_ok st keys st' = (store_ok st' \<and> (\<forall>k.
      closes st' k = closes st k + count_list keys k \<and>
      (indices st' k \<noteq> None \<longleftrightarrow> indices st k \<noteq> None \<or> k \<in> set keys)))"


text \<open>
  Modelled from the spec: the source only reads varints, it has no encoder. This is the
  base-128 continuation-bit scheme of the spec's glossary for an unsigned 64-bit value:
  seven bits per byte, least significant group first, the high bit set on every byte but
  the last.
\<close>

function spec_encode_varint :: "int64 \<Rightarrow> byte list" where
  "spec_encode_varint v =
     (if v < 0x80 then [ucast v]
      else (ucast (v AND 0x7F) OR 0x80) # spec_encode_varint (drop_bit 7 v))"
  by pat_completeness auto
termination
proof (relation "measure unat")
  show "wf (measure unat)" by simp
next
  fix v :: int64
  assume "\<not> v < 0x80"
  then have "128 \<le> unat v" by (simp add: word_less_nat_alt)
  then have "unat v div 128 < unat v" by simp
  moreover have "unat (drop_bit 7 v) = unat v div 128"
    unfolding unat_drop_bit_eq drop_bit_eq_div by (simp add: unat_div)
  ultimately show "(drop_bit 7 v, v) \<in> measure unat"
    by simp
qed
declare spec_encode_varint.simps [simp del]

section \<open>The varint reader on encoded values\<close>

lemma sint_int64: "sint (v::64 word) = (if uint v < 2 ^ 63 then uint v else uint v - 2 ^ 64)"
proof -
  have s: "sint v = take_bit 64 (uint v + 2 ^ 63) - 2 ^ 63"
    by (simp add: sint_uint signed_take_bit_eq_take_bit_shift)
  have lo: "0 \<le> uint v" and hi: "uint v < 2 ^ 64"
    using uint_lt2p [of v] by simp_all
  show ?thesis
  proof (cases "uint v < 2 ^ 63")
    case True
    then have "take_bit 64 (uint v + 2 ^ 63) = uint v + 2 ^ 63"
      using lo by (simp add: take_bit_int_eq_self)
    then show ?thesis using True s by simp
  next
    case False
    have "(uint v + 2 ^ 63) mod 2 ^ 64 = (uint v + 2 ^ 63 - 2 ^ 64) mod 2 ^ 64"
      by (rule minus_mod_self2 [symmetric])
    then have "take_bit 64 (uint v + 2 ^ 63) = take_bit 64 (uint v + 2 ^ 63 - 2 ^ 64)"
      by (simp only: take_bit_eq_mod)
    also have "\<dots> = uint v + 2 ^ 63 - 2 ^ 64"
      using False hi by (simp add: take_bit_int_eq_self)
    finally show ?thesis using False s by simp
  qed
qed

lemma x7F_mask: "(0x7F :: 'a::len word) = mask 7" by (simp add: mask_eq_exp_minus_1)
lemma bit_x80_int: "bit (0x80 :: int) n \<longleftrightarrow> n = 7"
proof -
  have "(0x80 :: int) = push_bit 7 1" by simp
  then show ?thesis by (simp only: bit_simps) auto
qed
lemma bit_x80_intD: "bit (0x80 :: int) n \<Longrightarrow> n = 7" by (subst (asm) bit_x80_int) simp
lemma bit_x80_intI: "bit (0x80 :: int) 7" by (subst bit_x80_int) simp

lemma less_x80_and_x7F: "(w :: int64) < 0x80 \<Longrightarrow> w AND 0x7F = w"
proof -
  assume "w < 0x80"
  then have "w < 2 ^ 7" by simp
  then show ?thesis unfolding x7F_mask by (rule less_mask_eq)
qed
lemma split_low7: "((w::int64) AND 0x7F) OR push_bit 7 (drop_bit 7 w) = w"
  unfolding x7F_mask
proof (rule bit_word_eqI)
  fix n assume "n < LENGTH(64)"
  then show "bit (w AND mask 7 OR push_bit 7 (drop_bit 7 w)) n = bit w n"
    by (cases "n < 7") (auto simp: bit_simps)
qed
lemma cont_byte_has_bit: "((ucast ((w::int64) AND 0x7F) :: byte) OR 0x80) AND 0x80 \<noteq> 0"
proof -
  have "bit (((ucast (w AND 0x7F) :: byte) OR 0x80) AND 0x80) 7"
    by (simp add: bit_simps bit_x80_intI)
  then show ?thesis by auto
qed
lemma cont_byte_low7: "((ucast ((w::int64) AND 0x7F) :: byte) OR 0x80) AND 0x7F = ucast (w AND 0x7F)"
  unfolding x7F_mask
  by (rule bit_word_eqI) (auto simp: bit_simps dest: bit_x80_intD)
lemma ucast_low7_back: "(ucast (ucast ((w::int64) AND 0x7F) :: byte) :: int64) = w AND 0x7F"
  unfolding x7F_mask 
  by (rule bit_word_eqI) (auto simp: bit_simps)
lemma low7_byte_no_cont: "((ucast ((w::int64) AND 0x7F) :: byte)) AND 0x80 = 0"
  unfolding x7F_mask
  by (rule bit_word_eqI) (auto simp: bit_simps dest: bit_x80_intD)
lemma low7_byte_low7: "((ucast ((w::int64) AND 0x7F) :: byte)) AND 0x7F = ucast (w AND 0x7F)"
  unfolding x7F_mask
  by (rule bit_word_eqI) (auto simp: bit_simps)

lemma ucast_and7F: "((ucast (w::int64) :: byte)) AND 0x7F = ucast (w AND 0x7F)"
  unfolding x7F_mask
  by (rule bit_word_eqI) (auto simp: bit_simps)


lemma or_shifted_ok:
  assumes "np \<or> uint low * 2 ^ nat c < 2 ^ 63"
  shows "or_shifted np v low c = Inr (v OR push_bit (nat c) (ucast low))"
proof -
  have "(word_of_int (uint low * 2 ^ nat c) :: int64) = of_int (uint low) * 2 ^ nat c"
    by simp
  also have "\<dots> = push_bit (nat c) (ucast low)"
    by (simp only: of_int_uint push_bit_eq_mult)
  finally show ?thesis using assms
    by (auto simp: or_shifted_def Let_def)
qed

lemma py_index_append: "py_index (pre @ x # rest) (int (length pre)) = Inr x"
  by (simp add: py_index_def Let_def)

lemma py_index_last: "pre \<noteq> [] \<Longrightarrow> py_index (pre @ rest) (int (length pre) - 1) = Inr (last pre)"
proof -
  assume "pre \<noteq> []"
  then obtain ys y where "pre = ys @ [y]" by (metis rev_exhaust)
  then show ?thesis using py_index_append [of ys y rest] by simp
qed

lemma uint_low_le: "uint (ucast ((w::int64) AND 0x7F) :: byte) \<le> uint w"
proof -
  have "uint (ucast (ucast (w AND 0x7F) :: byte) :: int64) = uint (ucast (w AND 0x7F) :: byte)"
    by (rule uint_up_ucast) (simp add: is_up)
  then have "uint (ucast (w AND 0x7F) :: byte) = uint (w AND 0x7F)"
    by (simp only: ucast_low7_back)
  also have "\<dots> \<le> uint w" 
    using word_and_le2 [of w "0x7F"] by (simp only: word_le_def)
  finally show ?thesis .
qed

lemma uint_drop7: "uint (drop_bit 7 (w::int64)) * 128 \<le> uint w"
proof -
  have "unat (drop_bit 7 w) = unat w div 128"
    unfolding unat_drop_bit_eq drop_bit_eq_div by (simp add: unat_div)
  then have "unat (drop_bit 7 w) * 128 \<le> unat w" by simp
  then have "int (unat (drop_bit 7 w) * 128) \<le> int (unat w)" by (rule iffD2 [OF of_nat_le_iff])
  then show ?thesis by simp
qed

lemma get_value_loop_step:
  "py_index data (off - 1) = Inr p \<Longrightarrow> p AND 0x80 \<noteq> 0 \<Longrightarrow> py_index data off = Inr b \<Longrightarrow>
   or_shifted np value (b AND 0x7F) (7 * (off - start)) = Inr value' \<Longrightarrow>
   get_value_loop data np start value off = get_value_loop data np start value' (off + 1)"
  by (subst get_value_loop.simps) simp

lemma get_value_loop_stop:
  "py_index data (off - 1) = Inr p \<Longrightarrow> p AND 0x80 = 0 \<Longrightarrow>
   get_value_loop data np start value off = Inr (value, off)"
  by (subst get_value_loop.simps) simp

lemma get_value_loop_encode:
  assumes "pre \<noteq> []" and "last pre AND 0x80 \<noteq> 0" and "start \<le> int (length pre)"
    and "np \<or> uint w * 2 ^ nat (7 * (int (length pre) - start)) < 2 ^ 63"
  shows "get_value_loop (pre @ spec_encode_varint w @ rest) np start acc (int (length pre)) =
         Inr (acc OR push_bit (nat (7 * (int (length pre) - start))) w,
              int (length pre) + int (length (spec_encode_varint w)))"
  using assms
proof (induction w arbitrary: pre acc rule: spec_encode_varint.induct)
  case (1 w)
  let ?k = "nat (7 * (int (length pre) - start))"
  let ?low = "ucast (w AND 0x7F) :: byte"
  have low_le: "uint ?low * 2 ^ ?k \<le> uint w * 2 ^ ?k"
    by (rule mult_right_mono [OF uint_low_le]) simp
  have "np \<or> uint ?low * 2 ^ ?k < 2 ^ 63"
  proof (cases np)
    case False
    with "1.prems"(4) have "uint w * 2 ^ ?k < 2 ^ 63" by blast
    with low_le show ?thesis by (blast intro: le_less_trans)
  qed blast
  then have "or_shifted np acc ?low (7 * (int (length pre) - start)) =
        Inr (acc OR push_bit ?k (ucast ?low))"
    by (rule or_shifted_ok)
  then have shifted: "\<And>b. b AND 0x7F = ?low \<Longrightarrow>
      or_shifted np acc (b AND 0x7F) (7 * (int (length pre) - start)) =
        Inr (acc OR push_bit ?k (w AND 0x7F))"
    by (simp only: ucast_low7_back)
  show ?case
  proof (cases "w < 0x80")
    case True
    let ?D = "pre @ spec_encode_varint w @ rest"
    have enc: "spec_encode_varint w = [ucast w]"
      using True by (subst spec_encode_varint.simps) simp
    have w7: "w AND 0x7F = w" using True by (rule less_x80_and_x7F)
    have b7: "(ucast w :: byte) AND 0x7F = ?low" by (rule ucast_and7F)
    have b8: "(ucast w :: byte) AND 0x80 = 0" using low7_byte_no_cont [of w] by (simp only: w7)
    have i1: "py_index ?D (int (length pre) - 1) = Inr (last pre)"
      by (rule py_index_last [OF "1.prems"(1)])
    have i2: "py_index ?D (int (length pre)) = Inr (ucast w)"
      unfolding enc using py_index_append [of pre "ucast w" rest] by simp
    have i3: "py_index ?D (int (length pre) + 1 - 1) = Inr (ucast w)"
      using i2 by simp
    have "get_value_loop ?D np start acc (int (length pre)) =
          get_value_loop ?D np start (acc OR push_bit ?k (w AND 0x7F)) (int (length pre) + 1)"
      by (rule get_value_loop_step [OF i1 "1.prems"(2) i2 shifted [OF b7]])
    also have "\<dots> = Inr (acc OR push_bit ?k (w AND 0x7F), int (length pre) + 1)"
      by (rule get_value_loop_stop [OF i3 b8])
    also have "\<dots> = Inr (acc OR push_bit ?k w, int (length pre) + int (length (spec_encode_varint w)))"
      unfolding w7 enc by simp
    finally show ?thesis .
  next
    case False
    let ?b = "?low OR 0x80"
    let ?pre' = "pre @ [?b]"
    let ?D = "pre @ spec_encode_varint w @ rest"
    have enc: "spec_encode_varint w = ?b # spec_encode_varint (drop_bit 7 w)"
      using False by (subst spec_encode_varint.simps) simp
    have D: "?D = ?pre' @ spec_encode_varint (drop_bit 7 w) @ rest"
      unfolding enc by simp
    have i1: "py_index ?D (int (length pre) - 1) = Inr (last pre)"
      by (rule py_index_last [OF "1.prems"(1)])
    have i2: "py_index ?D (int (length pre)) = Inr ?b"
      unfolding enc using py_index_append [of pre ?b "spec_encode_varint (drop_bit 7 w) @ rest"] by simp
    have len': "int (length ?pre') = int (length pre) + 1" by simp
    have k': "nat (7 * (int (length ?pre') - start)) = ?k + 7"
      using "1.prems"(3) by (simp add: nat_add_distrib)
    have "uint (drop_bit 7 w) * 2 ^ (?k + 7) = (uint (drop_bit 7 w) * 128) * 2 ^ ?k"
      by (simp add: power_add)
    also have "\<dots> \<le> uint w * 2 ^ ?k"
      by (rule mult_right_mono [OF uint_drop7]) simp
    finally have "uint (drop_bit 7 w) * 2 ^ (?k + 7) \<le> uint w * 2 ^ ?k" .
    then have bound: "np \<or> uint (drop_bit 7 w) * 2 ^ nat (7 * (int (length ?pre') - start)) < 2 ^ 63"
      using "1.prems"(4) unfolding k' by (blast intro: le_less_trans)
    have p1: "?pre' \<noteq> []" by simp
    have p2: "last ?pre' AND 0x80 \<noteq> 0" using cont_byte_has_bit [of w] by simp
    have p3: "start \<le> int (length ?pre')" using "1.prems"(3) by simp
    have val: "(acc OR push_bit ?k (w AND 0x7F)) OR push_bit (?k + 7) (drop_bit 7 w)
          = acc OR push_bit ?k w"
    proof -
      have "(acc OR push_bit ?k (w AND 0x7F)) OR push_bit (?k + 7) (drop_bit 7 w)
          = acc OR push_bit ?k ((w AND 0x7F) OR push_bit 7 (drop_bit 7 w))"
        by (simp only: push_bit_or push_bit_push_bit or.assoc)
      then show ?thesis by (simp only: split_low7)
    qed
    have "get_value_loop ?D np start acc (int (length pre)) =
          get_value_loop ?D np start (acc OR push_bit ?k (w AND 0x7F)) (int (length pre) + 1)"
      by (rule get_value_loop_step [OF i1 "1.prems"(2) i2 shifted [OF cont_byte_low7]])
    also have "\<dots> = get_value_loop (?pre' @ spec_encode_varint (drop_bit 7 w) @ rest) np start
           (acc OR push_bit ?k (w AND 0x7F)) (int (length ?pre'))"
      by (simp only: D len')
    also have "\<dots> = Inr ((acc OR push_bit ?k (w AND 0x7F)) OR
                 push_bit (nat (7 * (int (length ?pre') - start))) (drop_bit 7 w),
               int (length ?pre') + int (length (spec_encode_varint (drop_bit 7 w))))"
      by (rule "1.IH" [OF False p1 p2 p3 bound])
    also have "\<dots> = Inr (acc OR push_bit ?k w, int (length pre) + int (length (spec_encode_varint w)))"
      unfolding k' val enc by simp
    finally show ?thesis .
  qed
qed

lemma get_value_encode:
  assumes "np \<or> v < 2 ^ 63"
  shows "get_value (pre @ spec_encode_varint v @ rest) \<lparr>offset = int (length pre), is_np = np\<rparr> =
         Inr (v, \<lparr>offset = int (length pre) + int (length (spec_encode_varint v)), is_np = np\<rparr>)"
proof (cases "v < 0x80")
  case True
  let ?D = "pre @ spec_encode_varint v @ rest"
  have enc: "spec_encode_varint v = [ucast v]"
    using True by (subst spec_encode_varint.simps) simp
  have i0: "py_index ?D (int (length pre)) = Inr (ucast v)"
    unfolding enc using py_index_append [of pre "ucast v" rest] by simp
  then have i1: "py_index ?D (int (length pre) + 1 - 1) = Inr (ucast v)" by simp
  have v7: "v AND 0x7F = v" using True by (rule less_x80_and_x7F)
  have b8: "(ucast v :: byte) AND 0x80 = 0" using low7_byte_no_cont [of v] by (simp only: v7)
  have "(ucast ((ucast v :: byte) AND 0x7F) :: int64) = ucast (ucast (v AND 0x7F) :: byte)"
    by (simp only: ucast_and7F)
  also have "\<dots> = v AND 0x7F" by (rule ucast_low7_back)
  finally have val: "(ucast ((ucast v :: byte) AND 0x7F) :: int64) = v"
    by (simp only: v7)
  have "get_value_loop ?D np (int (length pre)) v (int (length pre) + 1) =
        Inr (v, int (length pre) + 1)"
    by (rule get_value_loop_stop [OF i1 b8])
  then show ?thesis
    by (simp add: get_value_def bind_res_def i0 val) (simp add: enc)
next
  case False
  let ?b = "ucast (v AND 0x7F) OR 0x80 :: byte"
  let ?pre' = "pre @ [?b]"
  let ?D = "pre @ spec_encode_varint v @ rest"
  have enc: "spec_encode_varint v = ?b # spec_encode_varint (drop_bit 7 v)"
    using False by (subst spec_encode_varint.simps) simp
  have D: "?D = ?pre' @ spec_encode_varint (drop_bit 7 v) @ rest"
    unfolding enc by simp
  have i0: "py_index ?D (int (length pre)) = Inr ?b"
    unfolding enc
    using py_index_append [of pre ?b "spec_encode_varint (drop_bit 7 v) @ rest"] by simp
  have val0: "(ucast (?b AND 0x7F) :: int64) = v AND 0x7F"
    by (simp only: cont_byte_low7 ucast_low7_back)
  have len': "int (length ?pre') = int (length pre) + 1" by simp
  have k': "nat (7 * (int (length ?pre') - int (length pre))) = 7" by simp
  have p1: "?pre' \<noteq> []" by simp
  have p2: "last ?pre' AND 0x80 \<noteq> 0" using cont_byte_has_bit [of v] by simp
  have p3: "int (length pre) \<le> int (length ?pre')" by simp
  have p4: "np \<or> uint (drop_bit 7 v) * 2 ^ nat (7 * (int (length ?pre') - int (length pre))) < 2 ^ 63"
  proof (cases np)
    case False
    with assms have "v < 2 ^ 63" by blast
    then have "uint v < 2 ^ 63" by (simp add: word_less_def)
    moreover have "uint (drop_bit 7 v) * 2 ^ 7 \<le> uint v" using uint_drop7 [of v] by simp
    ultimately show ?thesis unfolding k' by (blast intro: le_less_trans)
  qed blast
  have "get_value_loop (?pre' @ spec_encode_varint (drop_bit 7 v) @ rest) np (int (length pre))
          (v AND 0x7F) (int (length ?pre')) =
        Inr ((v AND 0x7F) OR push_bit (nat (7 * (int (length ?pre') - int (length pre)))) (drop_bit 7 v),
             int (length ?pre') + int (length (spec_encode_varint (drop_bit 7 v))))"
    by (rule get_value_loop_encode [OF p1 p2 p3 p4])
  then have "get_value_loop ?D np (int (length pre)) (v AND 0x7F) (int (length pre) + 1) =
        Inr (v, int (length pre) + 1 + int (length (spec_encode_varint (drop_bit 7 v))))"
    unfolding k' split_low7 by (simp only: D len')
  then show ?thesis
    by (simp add: get_value_def bind_res_def i0 val0) (simp add: enc)
qed

section \<open>The framing\<close>

lemma length_le_bytes: "length (le_bytes k n) = k"
  by (induction k arbitrary: n) auto

lemma unpack_le_bytes: "unpack_le64 (le_bytes k n) = int (n mod 256 ^ k)"
proof (induction k arbitrary: n)
  case 0
  show ?case by (simp add: unpack_le64_def)
next
  case (Suc k)
  have "unat (of_nat (n mod 256) :: byte) = n mod 256"
    by (simp add: unat_of_nat)
  then have b: "uint (of_nat (n mod 256) :: byte) = int (n mod 256)"
    by (simp only: uint_nat)
  have "unpack_le64 (le_bytes (Suc k) n) = int (n mod 256) + 256 * unpack_le64 (le_bytes k (n div 256))"
    using b by (simp add: unpack_le64_def)
  also have "\<dots> = int (n mod 256 + 256 * (n div 256 mod 256 ^ k))"
    by (simp add: Suc.IH)
  also have "n mod 256 + 256 * (n div 256 mod 256 ^ k) = n mod 256 ^ Suc k"
    by (simp add: mod_mult2_eq)
  finally show ?case .
qed

lemma unpack_nonneg: "0 \<le> unpack_le64 bs"
  by (induction bs) (auto simp: unpack_le64_def)

lemma le_bytes_unpack: "length bs = k \<Longrightarrow> le_bytes k (nat (unpack_le64 bs)) = bs"
proof (induction bs arbitrary: k)
  case Nil
  then show ?case by simp
next
  case (Cons b bs)
  then obtain k' where k: "k = Suc k'" and l: "length bs = k'" by (cases k) auto
  have u: "unpack_le64 (b # bs) = uint b + 256 * unpack_le64 bs"
    by (simp add: unpack_le64_def)
  have n: "nat (uint b + 256 * unpack_le64 bs) = unat b + 256 * nat (unpack_le64 bs)"
    using unpack_nonneg [of bs] by (simp add: nat_add_distrib nat_mult_distrib)
  have "unat b < 256" using unsigned_less [of b] by simp
  then have m: "(unat b + 256 * nat (unpack_le64 bs)) mod 256 = unat b"
    and d: "(unat b + 256 * nat (unpack_le64 bs)) div 256 = nat (unpack_le64 bs)"
    by simp_all
  have w: "(of_nat (unat b) :: byte) = b" by simp
  show ?case
    unfolding k u n le_bytes.simps m d w Cons.IH [OF l] ..
qed

lemma read_record_frame:
  assumes "length c1 = 4" and "length c2 = 4" and "length p < 2 ^ 63"
  shows "read_record (le_bytes 8 (length p) @ c1 @ p @ c2 @ rest) = Inr (p, rest)"
proof -
  have "length p mod 256 ^ 8 = length p" using assms(3) by simp
  then have u: "unpack_le64 (le_bytes 8 (length p)) = int (length p)"
    by (simp only: unpack_le_bytes)
  have l8: "length (le_bytes 8 (length p)) = 8" by (rule length_le_bytes)
  show ?thesis
    using assms by (simp add: read_record_def file_read_def Let_def l8 u)
qed

lemma read_record_Inr:
  assumes "read_record file = Inr (p, rest)"
  shows "\<exists>c1 c2. length c1 = 4 \<and> length c2 = 4 \<and> length p < 2 ^ 63 \<and>
     file = le_bytes 8 (length p) @ c1 @ p @ c2 @ rest"
proof -
  let ?h = "take 8 file"
  let ?f1 = "drop 8 file"
  let ?c1 = "take 4 ?f1"
  let ?f2 = "drop 4 ?f1"
  let ?c2 = "take 4 (drop (length p) ?f2)"
  from assms have h: "length ?h = 8" and c1: "length ?c1 = 4"
    and lt: "unpack_le64 ?h < 2 ^ 63"
    and p: "p = take (nat (unpack_le64 ?h)) ?f2" and pl: "int (length p) = unpack_le64 ?h"
    and c2: "length ?c2 = 4" and r: "rest = drop 4 (drop (length p) ?f2)"
    by (auto simp: read_record_def file_read_def Let_def split: if_splits)
  have "le_bytes 8 (nat (unpack_le64 ?h)) = ?h" by (rule le_bytes_unpack [OF h])
  then have hh: "le_bytes 8 (length p) = ?h" using pl by (metis nat_int)
  have "file = ?h @ ?c1 @ take (length p) ?f2 @ ?c2 @ drop 4 (drop (length p) ?f2)"
    by (metis append_take_drop_id)
  moreover have "take (length p) ?f2 = p" using p pl by (metis nat_int)
  ultimately have "file = le_bytes 8 (length p) @ ?c1 @ p @ ?c2 @ rest"
    using hh r by simp
  moreover have "length p < 2 ^ 63"
  proof -
    have "int (length p) < int (2 ^ 63)" using lt pl by simp
    then show ?thesis by (simp only: of_nat_less_iff)
  qed
  ultimately show ?thesis using c1 c2 by blast
qed

lemma read_record_Inl:
  "read_record file = Inl e \<Longrightarrow> e = AssertionError \<or> e = OverflowError"
  by (auto simp: read_record_def file_read_def Let_def split: if_splits)

section \<open>The decoder\<close>

lemma bind_res_Inr: "bind_res r f = Inr y \<longleftrightarrow> (\<exists>x. r = Inr x \<and> f x = Inr y)"
  by (cases r) (auto simp: bind_res_def)

lemma bind_res_Inl: "bind_res r f = Inl e \<longleftrightarrow> r = Inl e \<or> (\<exists>x. r = Inr x \<and> f x = Inl e)"
  by (cases r) (auto simp: bind_res_def)

lemma array_extends_refl: "array_extends a a"
  by (simp add: array_extends_def)

lemma array_extends_trans: "array_extends a b \<Longrightarrow> array_extends b c \<Longrightarrow> array_extends a c"
  by (auto simp: array_extends_def)

lemma array_len_mono: "array_extends a a' \<Longrightarrow> array_len a \<le> array_len a'"
  by (auto simp: array_extends_def array_len_def prefix_def intro: div_le_mono)

lemma frombytes_extends: "frombytes a bs = Inr a' \<Longrightarrow> array_extends a a'"
  by (auto simp: frombytes_def array_extends_def split: if_splits)

lemma array_append_extends: "array_append f32 a v = Inr a' \<Longrightarrow> array_extends a a'"
  by (auto simp: array_append_def array_extends_def split: typecode.splits if_splits)

lemma append_varints_extends:
  "append_varints f32 data target cur a = Inr (cur', a') \<Longrightarrow> array_extends a a'"
proof (induction f32 data target cur a rule: append_varints.induct)
  case (1 f32 data target cur a)
  show ?case
  proof (cases "offset cur < target")
    case False
    with "1.prems" show ?thesis
      by (subst (asm) append_varints.simps) (simp add: array_extends_refl)
  next
    case True
    with "1.prems" obtain v c1 a1 where g: "get_value data cur = Inr (v, c1)"
      and ap: "array_append f32 a v = Inr a1"
      and rest: "append_varints f32 data target c1 a1 = Inr (cur', a')"
      by (subst (asm) append_varints.simps) (auto split: sum.splits)
    from "1.IH" [OF True g refl ap rest] array_append_extends [OF ap]
    show ?thesis by (rule array_extends_trans [rotated])
  qed
qed

lemma entry_header_effect:
  assumes "entry_header data cur st = Inr (key, c, st1)"
  shows "(arrays st key \<noteq> None \<and> st1 = st) \<or>
         (arrays st key = None \<and> (\<exists>b. py_index data (offset c) = Inr b \<and>
            st1 = st\<lparr>arrays := (arrays st)(key \<mapsto> new_array b),
                      indices := (indices st)(key \<mapsto> [0])\<rparr>))"
  using assms
  by (auto simp: entry_header_def bind_res_Inr split: if_splits)

lemma decode_value_effect:
  assumes "decode_value f32 data key cur st = Inr (cur', st')"
  shows "\<exists>a idx a'. arrays st key = Some a \<and> indices st key = Some idx \<and> array_extends a a' \<and>
           st' = st\<lparr>arrays := (arrays st)(key \<mapsto> a'),
                     indices := (indices st)(key \<mapsto> idx @ [array_len a'])\<rparr>"
  using assms
  by (auto simp: decode_value_def bind_res_Inr close_example_def dict_get_def
           split: if_splits option.splits
           dest: frombytes_extends append_varints_extends)

lemma decode_entry_effect:
  assumes "decode_entry f32 data cur st = Inr (key, cur', st')"
  shows "\<exists>a0 idx0 a'. 
           (case arrays st key of None \<Rightarrow> (\<exists>b. a0 = new_array b) \<and> idx0 = [0]
                                | Some a \<Rightarrow> a0 = a \<and> indices st key = Some idx0) \<and>
           array_extends a0 a' \<and>
           arrays st' = (arrays st)(key \<mapsto> a') \<and>
           indices st' = (indices st)(key \<mapsto> idx0 @ [array_len a'])"
proof -
  from assms obtain c st1 where h: "entry_header data cur st = Inr (key, c, st1)"
    and v: "decode_value f32 data key c st1 = Inr (cur', st')"
    by (auto simp: decode_entry_def bind_res_Inr)
  from decode_value_effect [OF v] obtain a idx a' where
    a: "arrays st1 key = Some a" and idx: "indices st1 key = Some idx" and e: "array_extends a a'"
    and st': "st' = st1\<lparr>arrays := (arrays st1)(key \<mapsto> a'),
                     indices := (indices st1)(key \<mapsto> idx @ [array_len a'])\<rparr>"
    by blast
  from entry_header_effect [OF h] show ?thesis
  proof
    assume "arrays st key \<noteq> None \<and> st1 = st"
    with a idx e st' show ?thesis by auto
  next
    assume "arrays st key = None \<and> (\<exists>b. py_index data (offset c) = Inr b \<and>
            st1 = st\<lparr>arrays := (arrays st)(key \<mapsto> new_array b),
                      indices := (indices st)(key \<mapsto> [0])\<rparr>)"
    then obtain b where n: "arrays st key = None" and st1: "st1 = st\<lparr>arrays := (arrays st)(key \<mapsto> new_array b),
                      indices := (indices st)(key \<mapsto> [0])\<rparr>" by blast
    from a idx st1 have "a = new_array b" "idx = [0]" by auto
    with n e st' st1 show ?thesis
      by (intro exI [of _ "new_array b"] exI [of _ "[0]"] exI [of _ a']) auto
  qed
qed

lemma step_ok_refl: "store_ok st \<Longrightarrow> step_ok st [] st"
  by (auto simp: step_ok_def)



lemma step_ok_trans:
  assumes "step_ok st ks st1" and "step_ok st1 ks' st2"
  shows "step_ok st (ks @ ks') st2"
  unfolding step_ok_def
proof (intro conjI allI impI)
  show "store_ok st2" using assms(2) by (simp add: step_ok_def)
next
  fix k
  show "closes st2 k = closes st k + count_list (ks @ ks') k"
    using assms by (simp add: step_ok_def)
  show "(indices st2 k \<noteq> None) = (indices st k \<noteq> None \<or> k \<in> set (ks @ ks'))"
    using assms by (auto simp: step_ok_def)
qed

lemma sorted_snoc: "sorted (xs @ [n::nat]) \<longleftrightarrow> sorted xs \<and> (\<forall>x \<in> set xs. x \<le> n)"
  by (auto simp: sorted_append)

lemma sorted_le_last: "sorted xs \<Longrightarrow> x \<in> set xs \<Longrightarrow> x \<le> (last xs :: nat)"
  by (induction xs) (auto split: if_splits)

lemma decode_entry_step_ok:
  assumes d: "decode_entry f32 data cur st = Inr (key, cur', st')" and ok: "store_ok st"
  shows "step_ok st [key] st'"
proof -
  from decode_entry_effect [OF d] obtain a0 idx0 a' where
    c: "case arrays st key of None \<Rightarrow> (\<exists>b. a0 = new_array b) \<and> idx0 = [0]
                                | Some a \<Rightarrow> a0 = a \<and> indices st key = Some idx0"
    and e: "array_extends a0 a'"
    and ar: "arrays st' = (arrays st)(key \<mapsto> a')"
    and ix: "indices st' = (indices st)(key \<mapsto> idx0 @ [array_len a'])"
    by blast
  have okk: "case arrays st key of None \<Rightarrow> indices st key = None
      | Some a \<Rightarrow> (case indices st key of None \<Rightarrow> False
                  | Some idx \<Rightarrow> idx \<noteq> [] \<and> hd idx = 0 \<and> sorted idx \<and> last idx = array_len a)"
    using ok unfolding store_ok_def by blast
  have i0: "idx0 \<noteq> [] \<and> hd idx0 = 0 \<and> sorted idx0 \<and> last idx0 = array_len a0"
    using c okk by (auto simp: new_array_def array_len_def split: option.splits)
  have le: "\<forall>x \<in> set idx0. x \<le> array_len a'"
    using i0 array_len_mono [OF e] sorted_le_last [of idx0] by fastforce
  have cl: "closes st key = length idx0 - 1"
    using c okk by (auto simp: closes_def split: option.splits)
  have ok': "store_ok st'"
    unfolding store_ok_def
  proof
    fix k
    show "case arrays st' k of None \<Rightarrow> indices st' k = None
      | Some a \<Rightarrow> (case indices st' k of None \<Rightarrow> False
                  | Some idx \<Rightarrow> idx \<noteq> [] \<and> hd idx = 0 \<and> sorted idx \<and> last idx = array_len a)"
    proof (cases "k = key")
      case True
      then show ?thesis using i0 le by (simp add: ar ix sorted_snoc)
    next
      case False
      have "case arrays st k of None \<Rightarrow> indices st k = None
        | Some a \<Rightarrow> (case indices st k of None \<Rightarrow> False
                  | Some idx \<Rightarrow> idx \<noteq> [] \<and> hd idx = 0 \<and> sorted idx \<and> last idx = array_len a)"
        using ok unfolding store_ok_def by blast
      with False show ?thesis by (simp add: ar ix split: option.splits)
    qed
  qed
  show ?thesis
    unfolding step_ok_def
  proof (intro conjI allI impI)
    show "store_ok st'" by (rule ok')
  next
    fix k
    show "closes st' k = closes st k + count_list [key] k"
      using i0 cl by (cases "k = key") (auto simp: closes_def ix)
    show "(indices st' k \<noteq> None) = (indices st k \<noteq> None \<or> k \<in> set [key])"
      by (auto simp: ix)
  qed
qed



lemma entries_steps_step_ok:
  assumes "entries_steps f32 data s keys s'" and "store_ok (snd s)"
  shows "step_ok (snd s) keys (snd s')"
  using assms
proof (induction rule: entries_steps.induct)
  case (no_entry s)
  then show ?case by (simp add: step_ok_refl)
next
  case (one_more cur st key cur' st' keys s'')
  from decode_entry_step_ok [OF one_more.hyps(2)] one_more.prems
  have 1: "step_ok st [key] st'" by simp
  then have "store_ok st'" by (simp add: step_ok_def)
  with one_more.IH have "step_ok st' keys (snd s'')" by simp
  with 1 show ?case using step_ok_trans [of st "[key]" st' keys "snd s''"] by simp
qed

lemma entries_steps_snoc:
  assumes "entries_steps f32 data s keys (cur, st)" and "offset cur < int (length data)"
    and "decode_entry f32 data cur st = Inr (key, cur', st')"
  shows "entries_steps f32 data s (keys @ [key]) (cur', st')"
  using assms
proof (induction s keys "(cur, st)" rule: entries_steps.induct)
  case no_entry
  then show ?case by (auto intro: entries_steps.intros)
next
  case (one_more c0 st0 k c1 st1 keys)
  then show ?case by (auto intro: entries_steps.intros)
qed

lemma decode_entries_Some:
  assumes "decode_entries f32 data cur st = Some r"
  shows "\<exists>keys c' st'. entries_steps f32 data (cur, st) keys (c', st') \<and>
           (case r of
              Inr st'' \<Rightarrow> st'' = st' \<and> \<not> offset c' < int (length data)
            | Inl e \<Rightarrow> offset c' < int (length data) \<and> decode_entry f32 data c' st' = Inl e)"
proof (rule decode_entries.raw_induct [OF _ assms])
  fix dec' :: "(int64 \<Rightarrow> 32 word) \<Rightarrow> byte list \<Rightarrow> cursor \<Rightarrow> store \<Rightarrow> (error + store) option"
    and f32 data cur st y
  assume IH: "\<And>f32 data cur st y. dec' f32 data cur st = Some y \<Longrightarrow>
       \<exists>keys c' st'. entries_steps f32 data (cur, st) keys (c', st') \<and>
           (case y of
              Inr st'' \<Rightarrow> st'' = st' \<and> \<not> offset c' < int (length data)
            | Inl e \<Rightarrow> offset c' < int (length data) \<and> decode_entry f32 data c' st' = Inl e)"
    and body: "(if offset cur < int (length data)
      then case decode_entry f32 data cur st of Inl e \<Rightarrow> Some (Inl e)
           | Inr (key, cur', st') \<Rightarrow> dec' f32 data cur' st'
      else Some (Inr st)) = Some y"
  show "\<exists>keys c' st'. entries_steps f32 data (cur, st) keys (c', st') \<and>
           (case y of
              Inr st'' \<Rightarrow> st'' = st' \<and> \<not> offset c' < int (length data)
            | Inl e \<Rightarrow> offset c' < int (length data) \<and> decode_entry f32 data c' st' = Inl e)"
  proof (cases "offset cur < int (length data)")
    case False
    with body have "y = Inr st" by simp
    with False show ?thesis by (auto intro: entries_steps.intros)
  next
    case True
    show ?thesis
    proof (cases "decode_entry f32 data cur st")
      case (Inl e)
      with True body have "y = Inl e" by simp
      with True Inl show ?thesis by (auto intro: entries_steps.intros)
    next
      case (Inr x)
      obtain key c1 st1 where x: "x = (key, c1, st1)" by (cases x)
      with True Inr body have "dec' f32 data c1 st1 = Some y" by simp
      from IH [OF this] obtain keys c' st' where
        s: "entries_steps f32 data (c1, st1) keys (c', st')"
        and r: "case y of
              Inr st'' \<Rightarrow> st'' = st' \<and> \<not> offset c' < int (length data)
            | Inl e \<Rightarrow> offset c' < int (length data) \<and> decode_entry f32 data c' st' = Inl e"
        by blast
      from True Inr x s have "entries_steps f32 data (cur, st) (key # keys) (c', st')"
        by (auto intro: entries_steps.intros)
      with r show ?thesis by blast
    qed
  qed
qed

lemma entries_steps_decode_entries:
  assumes "entries_steps f32 data s keys s'"
  shows "decode_entries f32 data (fst s) (snd s) = decode_entries f32 data (fst s') (snd s')"
  using assms
proof (induction rule: entries_steps.induct)
  case (no_entry s)
  show ?case ..
next
  case (one_more cur st key cur' st' keys s'')
  then show ?case by (subst decode_entries.simps) simp
qed

lemma read_record_frame_ok:
  "frame_ok r \<Longrightarrow> read_record (frame r @ rest) = Inr (payload r, rest)"
  by (cases r) (simp add: frame_ok_def frame_def payload_def read_record_frame)

lemma load_loop_frames:
  assumes "\<forall>r \<in> set fs. frame_ok r"
  shows "load_loop f32 (length fs + m) (concat (map frame fs) @ rest) st =
         (case decode_records f32 (map payload fs) st of
            None \<Rightarrow> None
          | Some (Inl e) \<Rightarrow> Some (Inl e)
          | Some (Inr st1) \<Rightarrow> load_loop f32 m rest st1)"
  using assms
proof (induction fs arbitrary: st)
  case Nil
  show ?case by simp
next
  case (Cons r fs)
  then have r: "read_record (frame r @ concat (map frame fs) @ rest) = Inr (payload r, concat (map frame fs) @ rest)"
    by (simp add: read_record_frame_ok)
  show ?case
  proof (cases "decode_record f32 (payload r) st")
    case None
    with r show ?thesis by simp
  next
    case (Some x)
    show ?thesis
    proof (cases x)
      case (Inl e)
      with Some r show ?thesis by simp
    next
      case (Inr st')
      with Some r Cons show ?thesis by simp
    qed
  qed
qed

lemma load_loop_Inr_frames:
  assumes "load_loop f32 n fl st = Some (Inr st')"
  shows "\<exists>fs rest. length fs = n \<and> (\<forall>r \<in> set fs. frame_ok r) \<and>
           fl = concat (map frame fs) @ rest \<and>
           decode_records f32 (map payload fs) st = Some (Inr st')"
  using assms
proof (induction n arbitrary: fl st)
  case 0
  then show ?case by simp
next
  case (Suc n)
  from Suc.prems obtain data fl' st1 where
    r: "read_record fl = Inr (data, fl')"
    and d: "decode_record f32 data st = Some (Inr st1)"
    and l: "load_loop f32 n fl' st1 = Some (Inr st')"
    by (auto split: sum.splits option.splits)
  from read_record_Inr [OF r] obtain c1 c2 where
    c: "length c1 = 4" "length c2 = 4" "length data < 2 ^ 63"
    and f: "fl = le_bytes 8 (length data) @ c1 @ data @ c2 @ fl'"
    by blast
  from Suc.IH [OF l] obtain fs rest where
    fs: "length fs = n" "\<forall>r \<in> set fs. frame_ok r" "fl' = concat (map frame fs) @ rest"
      "decode_records f32 (map payload fs) st1 = Some (Inr st')"
    by blast
  let ?fs = "(c1, data, c2) # fs"
  have "length ?fs = Suc n" using fs by simp
  moreover have "\<forall>r \<in> set ?fs. frame_ok r" using fs c by (simp add: frame_ok_def)
  moreover have "fl = concat (map frame ?fs) @ rest" using f fs by (simp add: frame_def)
  moreover have "decode_records f32 (map payload ?fs) st = Some (Inr st')"
    using d fs by (simp add: payload_def)
  ultimately show ?case by blast
qed

lemma read_record_Inl_iff:
  "(\<exists>e. read_record fl = Inl e) \<longleftrightarrow> \<not> (\<exists>r rest. frame_ok r \<and> fl = frame r @ rest)"
proof
  assume "\<exists>e. read_record fl = Inl e"
  then show "\<not> (\<exists>r rest. frame_ok r \<and> fl = frame r @ rest)"
    by (auto simp: read_record_frame_ok)
next
  assume n: "\<not> (\<exists>r rest. frame_ok r \<and> fl = frame r @ rest)"
  show "\<exists>e. read_record fl = Inl e"
  proof (cases "read_record fl")
    case (Inl e)
    then show ?thesis by blast
  next
    case (Inr x)
    obtain p rest where "x = (p, rest)" by (cases x)
    with Inr read_record_Inr [of fl p rest] obtain c1 c2 where
      "length c1 = 4" "length c2 = 4" "length p < 2 ^ 63"
      "fl = le_bytes 8 (length p) @ c1 @ p @ c2 @ rest" by blast
    then have "frame_ok (c1, p, c2) \<and> fl = frame (c1, p, c2) @ rest"
      by (simp add: frame_ok_def frame_def)
    with n show ?thesis by blast
  qed
qed

lemma decode_record_Inr:
  assumes "decode_record f32 data st = Some (Inr st')"
  shows "\<exists>len c keys c'. get_value_of_kind 0x0A data \<lparr>offset = 0, is_np = False\<rparr> = Inr (len, c) \<and>
           int (length data) - offset c = sint len \<and>
           entries_steps f32 data (c, st) keys (c', st') \<and> \<not> offset c' < int (length data)"
proof -
  from assms obtain len c where
    g: "get_value_of_kind 0x0A data \<lparr>offset = 0, is_np = False\<rparr> = Inr (len, c)"
    and l: "int (length data) - offset c = sint len"
    and d: "decode_entries f32 data c st = Some (Inr st')"
    by (auto simp: decode_record_def split: sum.splits if_splits)
  from decode_entries_Some [OF d] g l show ?thesis by auto
qed

lemma load_loop_run:
  assumes "load_loop f32 n fl st = Some (Inr st')"
  shows "\<exists>recs rest. load_run f32 n fl st recs rest st' \<and> length recs = n"
  using assms
proof (induction n arbitrary: fl st)
  case 0
  then show ?case by (auto intro: load_run.intros)
next
  case (Suc n)
  from Suc.prems obtain data fl' st1 where
    r: "read_record fl = Inr (data, fl')"
    and d: "decode_record f32 data st = Some (Inr st1)"
    and l: "load_loop f32 n fl' st1 = Some (Inr st')"
    by (auto split: sum.splits option.splits)
  from decode_record_Inr [OF d] obtain len c keys c' where
    g: "get_value_of_kind 0x0A data \<lparr>offset = 0, is_np = False\<rparr> = Inr (len, c)"
    "int (length data) - offset c = sint len"
    "entries_steps f32 data (c, st) keys (c', st1)" "\<not> offset c' < int (length data)"
    by blast
  from Suc.IH [OF l] obtain recs rest where
    "load_run f32 n fl' st1 recs rest st'" "length recs = n" by blast
  with r g have "load_run f32 (Suc n) fl st ((data, keys) # recs) rest st'"
    by (auto intro: load_run.intros)
  with \<open>length recs = n\<close> show ?case by (intro exI [of _ "(data, keys) # recs"] exI [of _ rest]) simp
qed

lemma load_run_step_ok:
  assumes "load_run f32 n fl st recs rest st'" and "store_ok st"
  shows "step_ok st (concat (map snd recs)) st'"
  using assms
proof (induction rule: load_run.induct)
  case (no_record fl st)
  then show ?case by (simp add: step_ok_refl)
next
  case (one_record fl data fl' len c st keys c' st' n recs fl'' st'')
  from entries_steps_step_ok [OF one_record.hyps(4)] one_record.prems
  have 1: "step_ok st keys st'" by simp
  then have "store_ok st'" by (simp add: step_ok_def)
  with one_record.IH have "step_ok st' (concat (map snd recs)) st''" by simp
  with 1 show ?case using step_ok_trans by fastforce
qed


lemma store_ok_empty: "store_ok empty_store"
  by (simp add: store_ok_def empty_store_def)

lemma count_list_concat_ones:
  "\<forall>xs \<in> set xss. count_list xs k = 1 \<Longrightarrow> count_list (concat xss) k = length xss"
  by (induction xss) auto

lemma get_value_loop_bounds:
  "get_value_loop data np start acc off = Inr (v, off') \<Longrightarrow>
   off \<le> off' \<and> off' \<le> int (length data)"
proof (induction data np start acc off rule: get_value_loop.induct)
  case (1 data np start acc off)
  from "1.prems" obtain p where p: "py_index data (off - 1) = Inr p"
    by (subst (asm) get_value_loop.simps) (auto split: sum.splits)
  then have le: "off \<le> int (length data)"
    by (auto simp: py_index_def Let_def split: if_splits)
  show ?case
  proof (cases "p AND 0x80 = 0")
    case True
    with p "1.prems" have "off' = off"
      by (subst (asm) get_value_loop.simps) simp
    with le show ?thesis by simp
  next
    case False
    with p "1.prems" obtain b acc' where b: "py_index data off = Inr b"
      and o: "or_shifted np acc (b AND 0x7F) (7 * (off - start)) = Inr acc'"
      and r: "get_value_loop data np start acc' (off + 1) = Inr (v, off')"
      by (subst (asm) get_value_loop.simps) (auto split: sum.splits)
    from "1.IH" [OF p False b o r] show ?thesis by simp
  qed
qed

lemma get_value_bounds:
  assumes "get_value data cur = Inr (v, c)"
  shows "offset cur < offset c \<and> offset c \<le> int (length data) \<and>
         - int (length data) \<le> offset cur \<and> is_np c = is_np cur"
  using assms
  by (auto simp: get_value_def bind_res_Inr py_index_def Let_def split: if_splits
           dest!: get_value_loop_bounds)

lemma get_value_of_kind_bounds:
  assumes "get_value_of_kind kind data cur = Inr (v, c)"
  shows "offset cur < offset c \<and> offset c \<le> int (length data) \<and>
         - int (length data) \<le> offset cur \<and> is_np c = is_np cur \<and>
         py_index data (offset cur) = Inr kind"
  using assms
  by (auto simp: get_value_of_kind_def bind_res_Inr split: if_splits dest!: get_value_bounds)
     (auto simp: py_index_def Let_def split: if_splits)

lemma wrap64_id: "- (2 ^ 63) \<le> i \<Longrightarrow> i < 2 ^ 63 \<Longrightarrow> wrap64 i = i"
  unfolding wrap64_def
  by (simp add: sint_sbintrunc' signed_take_bit_int_eq_self)

lemma py_slice_in_range:
  "0 \<le> a \<Longrightarrow> 0 \<le> n \<Longrightarrow> a + n \<le> int (length xs) \<Longrightarrow>
   py_slice xs a (a + n) = take (nat n) (drop (nat a) xs) \<and>
   length (py_slice xs a (a + n)) = nat n"
  by (auto simp: py_slice_def py_clamp_def Let_def min_def nat_diff_distrib nat_add_distrib)

lemma value_length_zero:
  "get_value_of_kind kind data cur = Inr (0, c1) \<Longrightarrow> value_length kind data cur = Inr (0, c1)"
  by (simp add: value_length_def bind_res_def)

lemma value_length_nonzero:
  "get_value_of_kind kind data cur = Inr (a, c1) \<Longrightarrow> a \<noteq> 0 \<Longrightarrow>
   value_length kind data cur = get_value_of_kind 0x0A data c1"
  by (simp add: value_length_def bind_res_def)

lemma decode_value_bytes:
  assumes b: "py_index data (offset cur) = Inr 0x0A"
    and v: "value_length 0x0A data cur = Inr (len, c)"
    and arr: "arrays st key = Some arr" "typecode arr = TC_B" and idx: "indices st key = Some idx"
    and rng: "0 \<le> offset c" "0 \<le> sint len" "offset c + sint len \<le> int (length data)"
      "int (length data) < 2 ^ 63"
  shows "decode_value f32 data key cur st =
     Inr (\<lparr>offset = offset c + sint len, is_np = True\<rparr>,
          st\<lparr>arrays := (arrays st)(key \<mapsto>
                  arr\<lparr>raw := raw arr @ take (nat (sint len)) (drop (nat (offset c)) data)\<rparr>),
             indices := (indices st)(key \<mapsto> idx @ [length (raw arr) + nat (sint len)])\<rparr>)"
proof -
  have w: "wrap64 (offset c + sint len) = offset c + sint len"
    using rng by (intro wrap64_id) auto
  have sl: "py_slice data (offset c) (offset c + sint len) = take (nat (sint len)) (drop (nat (offset c)) data)"
    and ll: "length (py_slice data (offset c) (offset c + sint len)) = nat (sint len)"
    using py_slice_in_range [of "offset c" "sint len" data] rng by simp_all
  have adv: "advance c len = \<lparr>offset = offset c + sint len, is_np = True\<rparr>"
    by (simp add: advance_def w)
  have fb: "frombytes arr (take (nat (sint len)) (drop (nat (offset c)) data)) =
      Inr (arr\<lparr>raw := raw arr @ take (nat (sint len)) (drop (nat (offset c)) data)\<rparr>)"
    using arr by (simp add: frombytes_def)
  have al: "array_len (arr\<lparr>raw := raw arr @ take (nat (sint len)) (drop (nat (offset c)) data)\<rparr>)
      = length (raw arr) + nat (sint len)"
    using arr ll sl by (simp add: array_len_def)
  show ?thesis
    using b v arr idx
    by (simp add: decode_value_def bind_res_def adv sl fb dict_get_def close_example_def al)
qed

lemma decode_value_first_zero:
  assumes g: "get_value_of_kind kind data cur = Inr (0, c1)"
    and k: "kind = 0x0A \<or> kind = 0x1A \<or> kind = 0x12"
    and rng: "0 \<le> offset cur" "int (length data) < 2 ^ 63"
    and arr: "arrays st key = Some arr" and idx: "indices st key = Some idx"
  shows "decode_value f32 data key cur st =
     Inr (if kind = 0x1A then c1 else \<lparr>offset = offset c1, is_np = True\<rparr>,
          st\<lparr>arrays := (arrays st)(key \<mapsto> arr),
             indices := (indices st)(key \<mapsto> idx @ [array_len arr])\<rparr>)"
proof -
  from get_value_of_kind_bounds [OF g]
  have bd: "offset cur < offset c1" "offset c1 \<le> int (length data)"
    and b: "py_index data (offset cur) = Inr kind" by simp_all
  have v: "value_length kind data cur = Inr (0, c1)" using g by (rule value_length_zero)
  have w: "wrap64 (offset c1) = offset c1" using bd rng by (intro wrap64_id) auto
  have adv: "advance c1 0 = \<lparr>offset = offset c1, is_np = True\<rparr>"
    by (simp add: advance_def w)
  have sl: "py_slice data (offset c1) (offset c1) = []"
    by (simp add: py_slice_def Let_def)
  have fb: "frombytes arr [] = Inr arr" by (simp add: frombytes_def)
  have av: "append_varints f32 data (offset c1) c1 arr = Inr (c1, arr)"
    by (subst append_varints.simps) simp
  have nf: "np_frombuffer_f4 data 0 (offset c1) = Inr []"
    using bd rng by (simp add: np_frombuffer_f4_def Let_def)
  from k show ?thesis
  proof (elim disjE)
    assume "kind = 0x0A"
    then show ?thesis using b v arr idx
      by (simp add: decode_value_def bind_res_def adv sl fb dict_get_def close_example_def)
  next
    assume "kind = 0x1A"
    then show ?thesis using b v arr idx
      by (simp add: decode_value_def bind_res_def adv av dict_get_def close_example_def)
  next
    assume "kind = 0x12"
    then show ?thesis using b v arr idx
      by (simp add: decode_value_def bind_res_def adv nf fb dict_get_def close_example_def)
  qed
qed

lemma decode_value_second_fails:
  assumes g: "get_value_of_kind kind data cur = Inr (a, c1)" and a: "a \<noteq> 0"
    and k: "kind = 0x0A \<or> kind = 0x1A \<or> kind = 0x12"
    and e: "get_value_of_kind 0x0A data c1 = Inl e"
  shows "decode_value f32 data key cur st = Inl e"
proof -
  from get_value_of_kind_bounds [OF g] have b: "py_index data (offset cur) = Inr kind" by simp
  have v: "value_length kind data cur = Inl e" using value_length_nonzero [OF g a] e by simp
  from k show ?thesis
    using b v by (elim disjE) (simp_all add: decode_value_def bind_res_def)
qed

lemma decode_value_varints:
  assumes g: "get_value_of_kind 0x1A data cur = Inr (a, c1)" and a: "a \<noteq> 0"
    and g2: "get_value_of_kind 0x0A data c1 = Inr (len, c2)"
    and arr: "arrays st key = Some arr" and idx: "indices st key = Some idx"
  shows "decode_value f32 data key cur st =
     bind_res (append_varints f32 data (offset (advance c2 len)) c2 arr) (\<lambda>(c', a').
       Inr (c', st\<lparr>arrays := (arrays st)(key \<mapsto> a'),
                   indices := (indices st)(key \<mapsto> idx @ [array_len a'])\<rparr>))"
proof -
  from get_value_of_kind_bounds [OF g] have b: "py_index data (offset cur) = Inr 0x1A" by simp
  have v: "value_length 0x1A data cur = Inr (len, c2)" using value_length_nonzero [OF g a] g2 by simp
  show ?thesis using b v arr idx
    by (auto simp: decode_value_def bind_res_def dict_get_def close_example_def split: sum.splits)
qed

lemma decode_value_floats:
  assumes g: "get_value_of_kind 0x12 data cur = Inr (a, c1)" and a: "a \<noteq> 0"
    and g2: "get_value_of_kind 0x0A data c1 = Inr (len, c2)"
    and arr: "arrays st key = Some arr" "typecode arr = TC_f" and idx: "indices st key = Some idx"
    and rng: "0 \<le> offset cur" "0 \<le> sint len" "offset c2 + sint len \<le> int (length data)"
      "int (length data) < 2 ^ 63"
  shows "decode_value f32 data key cur st =
     Inr (\<lparr>offset = offset c2 + sint len, is_np = True\<rparr>,
          st\<lparr>arrays := (arrays st)(key \<mapsto>
                  arr\<lparr>raw := raw arr @ take (4 * nat (sint len div 4)) (drop (nat (offset c2)) data)\<rparr>),
             indices := (indices st)(key \<mapsto>
                  idx @ [(length (raw arr) + 4 * nat (sint len div 4)) div 4])\<rparr>)"
proof -
  let ?n = "nat (sint len div 4)"
  let ?fl = "take (4 * ?n) (drop (nat (offset c2)) data)"
  from get_value_of_kind_bounds [OF g] have b: "py_index data (offset cur) = Inr 0x12"
    and bd: "offset cur < offset c1" by simp_all
  from get_value_of_kind_bounds [OF g2] have bd2: "offset c1 < offset c2" by simp
  have v: "value_length 0x12 data cur = Inr (len, c2)" using value_length_nonzero [OF g a] g2 by simp
  have w: "wrap64 (offset c2 + sint len) = offset c2 + sint len"
    using rng bd bd2 by (intro wrap64_id) auto
  have adv: "advance c2 len = \<lparr>offset = offset c2 + sint len, is_np = True\<rparr>"
    by (simp add: advance_def w)
  have q: "4 * (sint len div 4) \<le> sint len" using rng(2) by simp
  have q0: "0 \<le> sint len div 4" using rng(2) by simp
  have n4: "nat (4 * (sint len div 4)) = 4 * ?n" using q0 by (simp add: nat_mult_distrib)
  have nf: "np_frombuffer_f4 data (sint len div 4) (offset c2) = Inr ?fl"
    using rng bd bd2 q q0 by (simp add: np_frombuffer_f4_def Let_def n4)
  have "int (4 * ?n) \<le> int (length data) - offset c2" using q q0 rng by simp
  then have "4 * ?n \<le> length data - nat (offset c2)" using rng bd bd2 by linarith
  then have ll: "length ?fl = 4 * ?n" by simp
  have fb: "frombytes arr ?fl = Inr (arr\<lparr>raw := raw arr @ ?fl\<rparr>)"
    using arr unfolding frombytes_def ll by simp
  have al: "array_len (arr\<lparr>raw := raw arr @ ?fl\<rparr>) = (length (raw arr) + 4 * ?n) div 4"
    using arr unfolding array_len_def by (simp add: ll del: length_take)
  show ?thesis using b v arr idx
    by (simp add: decode_value_def bind_res_def adv nf fb dict_get_def close_example_def al del: length_take)
qed


lemma decode_value_unsupported:
  assumes "py_index data (offset c) = Inr b" and "b \<noteq> 0x0A" and "b \<noteq> 0x1A" and "b \<noteq> 0x12"
  shows "decode_value f32 data key c st = Inl (UnsupportedTag b)"
  using assms by (simp add: decode_value_def bind_res_def)

lemma entries_steps_fail:
  assumes "entries_steps f32 data s keys (cur, st)" and "offset cur < int (length data)"
    and "decode_entry f32 data cur st = Inl e"
  shows "decode_entries f32 data (fst s) (snd s) = Some (Inl e)"
proof -
  have "decode_entries f32 data cur st = Some (Inl e)"
    using assms(2,3) by (subst decode_entries.simps) simp
  with entries_steps_decode_entries [OF assms(1)] show ?thesis by simp
qed

section \<open>The dataset, the metric and the evaluation\<close>

lemma edit_distance_Nil2: "edit_distance xs [] = length xs"
  by (cases xs) auto

lemma edit_distance_same: "edit_distance xs xs = 0"
  by (induction xs) auto

lemma mean_update_eq:
  "mean_update m vs = m\<lparr>mean_value := mean_value m + sum_list vs,
                         weight := weight m + of_nat (length vs)\<rparr>"
  by (cases vs) (simp_all add: mean_update_def)

lemma update_eq:
  "update m ps ts = m\<lparr>mean_value := mean_value m + sum_list (batch_scores (ignore_index m) (ps, ts)),
                       weight := weight m + of_nat (length (batch_scores (ignore_index m) (ps, ts)))\<rparr>"
  by (simp add: update_def mean_update_eq batch_scores_def)

lemma foldl_update:
  "foldl (\<lambda>m (ps, ts). update m ps ts) m bs =
     m\<lparr>mean_value := mean_value m + sum_list (concat (map (batch_scores (ignore_index m)) bs)),
       weight := weight m + of_nat (length (concat (map (batch_scores (ignore_index m)) bs)))\<rparr>"
proof (induction bs arbitrary: m)
  case Nil
  show ?case by simp
next
  case (Cons b bs)
  obtain ps ts where b: "b = (ps, ts)" by (cases b)
  have "foldl (\<lambda>m (ps, ts). update m ps ts) m (b # bs) =
        foldl (\<lambda>m (ps, ts). update m ps ts) (update m ps ts) bs"
    by (simp add: b)
  also have "\<dots> = (update m ps ts)\<lparr>mean_value := mean_value (update m ps ts) +
           sum_list (concat (map (batch_scores (ignore_index (update m ps ts))) bs)),
         weight := weight (update m ps ts) +
           of_nat (length (concat (map (batch_scores (ignore_index (update m ps ts))) bs)))\<rparr>"
    by (rule Cons.IH)
  also have "\<dots> = m\<lparr>mean_value := mean_value m +
           sum_list (concat (map (batch_scores (ignore_index m)) (b # bs))),
         weight := weight m + of_nat (length (concat (map (batch_scores (ignore_index m)) (b # bs))))\<rparr>"
    by (simp add: update_eq b add.assoc)
  finally show ?case .
qed

lemma example_score_eq:
  "example_score ignore y_pred y_true =
     of_nat (edit_distance (filter_ignore ignore y_pred) (filter_ignore ignore y_true)) /
     of_nat (max (length (filter_ignore ignore y_true)) 1)"
proof -
  have "\<And>xs :: 'a list. (if length xs = 0 then 1 else length xs) = max (length xs) 1"
    by (case_tac xs) auto
  then show ?thesis
    by (cases ignore) (simp_all add: example_score_def filter_ignore_def Let_def)
qed

lemma foldl_evaluate:
  "foldl (\<lambda>m (gold_sentence, prediction). update m [prediction] [gold_sentence]) m zs =
     m\<lparr>mean_value := mean_value m +
           sum_list (map (\<lambda>(g, p). example_score (ignore_index m) p g) zs),
       weight := weight m + of_nat (length zs)\<rparr>"
proof (induction zs arbitrary: m)
  case Nil
  show ?case by simp
next
  case (Cons z zs)
  obtain g p where z: "z = (g, p)" by (cases z)
  have "foldl (\<lambda>m (gold_sentence, prediction). update m [prediction] [gold_sentence]) m (z # zs) =
        foldl (\<lambda>m (gold_sentence, prediction). update m [prediction] [gold_sentence])
          (update m [p] [g]) zs"
    by (simp add: z)
  also have "\<dots> = (update m [p] [g])\<lparr>mean_value := mean_value (update m [p] [g]) +
           sum_list (map (\<lambda>(g', p'). example_score (ignore_index (update m [p] [g])) p' g') zs),
         weight := weight (update m [p] [g]) + of_nat (length zs)\<rparr>"
    by (rule Cons.IH)
  also have "\<dots> = m\<lparr>mean_value := mean_value m +
           sum_list (map (\<lambda>(g, p). example_score (ignore_index m) p g) (z # zs)),
       weight := weight m + of_nat (length (z # zs))\<rparr>"
    by (simp add: update_eq batch_scores_def z add.assoc)
  finally show ?case .
qed

lemma gold_from_eager_length:
  assumes "ds_data ds = Some xs" and "xs \<noteq> []"
  shows "i \<le> length xs \<Longrightarrow> gold_from MARKS dec ds i = Inr g \<Longrightarrow> length g = length xs - i"
proof (induction "length xs - i" arbitrary: i g)
  case 0
  then have i: "i = length xs" by simp
  have "getitem dec ds (int i) = Inl IndexError"
    using assms i by (simp add: getitem_def py_index_def)
  with "0.prems"(2) have "g = []" by (subst (asm) gold_from.simps) simp
  with i show ?case by simp
next
  case (Suc n)
  then have i: "i < length xs" by simp
  have gi: "getitem dec ds (int i) = Inr (xs ! i)"
    using assms i by (simp add: getitem_def py_index_def)
  from Suc.prems(2) gi obtain g1 gs where
    "gold_from MARKS dec ds (Suc i) = Inr gs" and g: "g = g1 # gs"
    by (subst (asm) gold_from.simps) (auto split: sum.splits)
  moreover have "n = length xs - Suc i" using Suc.hyps(2) by simp
  ultimately have "length gs = length xs - Suc i" using Suc.hyps(1) i by simp
  with g i show ?case by simp
qed

lemma decode_all_nth:
  "decode_all dec st js = Inr xs \<Longrightarrow>
   length xs = length js \<and> (\<forall>j < length js. decode_item dec st (int (js ! j)) = Inr (xs ! j))"
proof (induction js arbitrary: xs)
  case Nil
  then show ?case by simp
next
  case (Cons i js)
  from Cons.prems obtain x ys where x: "decode_item dec st (int i) = Inr x"
    and ys: "decode_all dec st js = Inr ys" and xs: "xs = x # ys"
    by (auto split: sum.splits)
  from Cons.IH [OF ys] x xs show ?case
    by (auto simp: nth_Cons split: nat.splits)
qed

lemma gold_from_items:
  "gold_from MARKS dec ds i = Inr g \<Longrightarrow>
   (\<forall>j < length g. \<exists>x. getitem dec ds (int (i + j)) = Inr x \<and>
        marks_to_strings MARKS (marks x) = Inr (g ! j)) \<and>
   getitem dec ds (int (i + length g)) = Inl IndexError"
proof (induction MARKS dec ds i arbitrary: g rule: gold_from.induct)
  case (1 MARKS dec ds i)
  show ?case
  proof (cases "getitem dec ds (int i)")
    case (Inl e)
    with "1.prems" have "e = IndexError" and "g = []"
      by (subst (asm) gold_from.simps, simp split: if_splits)+
    with Inl show ?thesis by simp
  next
    case (Inr x)
    with "1.prems" obtain g1 gs where m: "marks_to_strings MARKS (marks x) = Inr g1"
      and r: "gold_from MARKS dec ds (Suc i) = Inr gs" and g: "g = g1 # gs"
      by (subst (asm) gold_from.simps) (auto split: sum.splits)
    from "1.IH" [OF Inr m r]
    have ih: "\<forall>j < length gs. \<exists>x. getitem dec ds (int (Suc i + j)) = Inr x \<and>
        marks_to_strings MARKS (marks x) = Inr (gs ! j)"
      and last: "getitem dec ds (int (Suc i + length gs)) = Inl IndexError" by simp_all
    have "\<exists>x. getitem dec ds (int (i + j)) = Inr x \<and>
        marks_to_strings MARKS (marks x) = Inr (g ! j)" if "j < length g" for j
    proof (cases j)
      case 0
      with Inr m g show ?thesis by simp
    next
      case (Suc k)
      with that g have "k < length gs" by simp
      with ih Suc g show ?thesis by simp
    qed
    with last g show ?thesis by simp
  qed
qed

lemma gold_from_length_unique:
  assumes "gold_from MARKS dec ds 0 = Inr g"
    and ok: "\<forall>i < n. \<exists>x. getitem dec ds (int i) = Inr x"
    and stop: "getitem dec ds (int n) = Inl IndexError"
  shows "length g = n"
proof -
  from gold_from_items [OF assms(1)]
  have a: "\<And>j. j < length g \<Longrightarrow> \<exists>x. getitem dec ds (int j) = Inr x"
    and b: "getitem dec ds (int (length g)) = Inl IndexError" by auto
  have "\<not> length g < n" using ok b by auto
  moreover have "\<not> n < length g" using a stop by fastforce
  ultimately show ?thesis by simp
qed

lemma dataset_init_eager:
  assumes "dataset_init dec f32 fl sz False = Some (Inr ds)"
  shows "ds_size ds = sz \<and> (\<exists>xs. ds_data ds = Some xs \<and> length xs = sz)"
proof -
  from assms obtain st xs where xs: "decode_all dec st [0 ..< sz] = Inr xs"
    and e: "ds = \<lparr>ds_size = sz, ds_data = Some xs, ds_store = None\<rparr>"
    by (auto simp: dataset_init_def split: option.splits sum.splits)
  from decode_all_nth [OF xs] e show ?thesis by simp
qed

section \<open>Claims\<close>

text \<open>
  C2, as stated: every unsigned 64-bit value survives encoding and decoding, the 10-byte
  encodings included. The claim fails on the code at \<open>v = 2^63\<close>, the smallest value
  whose encoding needs 10 bytes. The reader returns an \<open>np.int64\<close>: with a Python
  \<open>int\<close> offset the tenth byte makes \<open>value |= 1 << 63\<close> raise, and with an
  \<open>np.int64\<close> offset the result is the negative number \<open>-2^63\<close>.
\<close>

theorem get_value_10_bytes_counterexample:
  "length (spec_encode_varint (2 ^ 63)) = 10 \<and>
   get_value (spec_encode_varint (2 ^ 63)) \<lparr>offset = 0, is_np = False\<rparr> = Inl OverflowError \<and>
   get_value (spec_encode_varint (2 ^ 63)) \<lparr>offset = 0, is_np = True\<rparr> =
     Inr (2 ^ 63, \<lparr>offset = 10, is_np = True\<rparr>) \<and>
   sint (2 ^ 63 :: int64) = - (2 ^ 63)"
  by code_simp

text \<open>
  C2, amended: for every value below \<open>2^63\<close>, that is every value an \<open>np.int64\<close> can
  hold as a non-negative number (encodings of 1 to 9 bytes), the reader placed at the
  start of the encoding returns exactly that value and leaves the offset just behind the
  encoding, whatever precedes and follows the encoding and whichever kind of offset is in
  use. With an \<open>np.int64\<close> offset the same holds for the 64-bit pattern of every unsigned
  64-bit value, which reads as \<open>v - 2^64\<close> from \<open>2^63\<close> on.
\<close>

theorem get_value_roundtrip:
  "np \<or> v < 2 ^ 63 \<Longrightarrow>
   get_value (pre @ spec_encode_varint v @ rest) \<lparr>offset = int (length pre), is_np = np\<rparr> =
     Inr (v, \<lparr>offset = int (length pre) + int (length (spec_encode_varint v)), is_np = np\<rparr>) \<and>
   sint v = (if v < 2 ^ 63 then uint v else uint v - 2 ^ 64)"
proof -
  assume a: "np \<or> v < 2 ^ 63"
  have "sint v = (if v < 2 ^ 63 then uint v else uint v - 2 ^ 64)"
    using sint_int64 [of v] by (simp add: word_less_def)
  with get_value_encode [OF a] show ?thesis by blast
qed

theorem get_value_roundtrip_witness:
  "(False \<or> (268435456 :: int64) < 2 ^ 63) \<and>
   get_value ([0x0A] @ [0x80, 0x80, 0x80, 0x80, 0x01] @ [0xFF]) \<lparr>offset = 1, is_np = False\<rparr> =
     Inr (268435456, \<lparr>offset = 6, is_np = False\<rparr>) \<and>
   sint (268435456 :: int64) = 268435456"
proof -
  have h: "False \<or> (268435456 :: int64) < 2 ^ 63" by simp
  have e: "spec_encode_varint 268435456 = [0x80, 0x80, 0x80, 0x80, 0x01]" by code_simp
  show ?thesis
    using h get_value_roundtrip [OF h, of "[0x0A]" "[0xFF]"] unfolding e by simp
qed

text \<open>
  C1, as stated: after loading \<open>K\<close> records every index array has \<open>K + 1\<close> entries. The
  claim fails on the code for a corpus of two records of which only the first has the key
  \<open>marks\<close> (the second is an example without features, the payload \<open>0A 00\<close>): the load
  succeeds and the index array of \<open>marks\<close> is \<open>[0, 3]\<close>, two entries for \<open>K = 2\<close>. An
  index array is created when its key is first met, and an entry is appended when an
  entry with that key is decoded; nothing is appended for a record that lacks the key.
\<close>

theorem index_length_counterexample:
  "(case load_data (\<lambda>_. 0)
      ([20, 0, 0, 0, 0, 0, 0, 0, 1, 2, 3, 4,
        0x0A, 0x12, 0x0A, 0x10, 0x0A, 0x05, 0x6D, 0x61, 0x72, 0x6B, 0x73, 0x12, 0x07,
        0x1A, 0x05, 0x0A, 0x03, 0x03, 0x01, 0x04, 5, 6, 7, 8] @
       [2, 0, 0, 0, 0, 0, 0, 0, 1, 2, 3, 4, 0x0A, 0x00, 5, 6, 7, 8]) 2 of
      Some (Inr st) \<Rightarrow> indices st marks_key
    | _ \<Rightarrow> None) = Some [0, 3] \<and> length [0, 3 :: nat] \<noteq> 2 + 1"
  by code_simp

text \<open>
  C1, amended: for every corpus successfully loaded, the two dictionaries have the same
  keys, namely the keys of the entries that were decoded, and for every key the index
  array starts with 0, is non-decreasing and has exactly one entry more than the number
  of decoded entries with that key: one entry is appended per occurrence of the key,
  also when the occurrence appended no element. So the array has \<open>K + 1\<close> entries
  when each of the \<open>K\<close> records has exactly one entry with the key. \<open>recs\<close> lists, record
  by record, the payload and the keys of its entries in the order of decoding.
\<close>

theorem index_entries_per_occurrence:
  assumes "load_data f32 fl K = Some (Inr st)"
  shows "\<exists>recs rest. load_run f32 K fl empty_store recs rest st \<and> length recs = K \<and>
     (\<forall>key. (indices st key \<noteq> None \<longleftrightarrow> key \<in> set (concat (map snd recs))) \<and>
            (indices st key \<noteq> None \<longleftrightarrow> arrays st key \<noteq> None)) \<and>
     (\<forall>key idx. indices st key = Some idx \<longrightarrow>
         hd idx = 0 \<and> sorted idx \<and>
         length idx = 1 + count_list (concat (map snd recs)) key \<and>
         ((\<forall>r \<in> set recs. count_list (snd r) key = 1) \<longrightarrow> length idx = K + 1))"
proof -
  from assms have "load_loop f32 K fl empty_store = Some (Inr st)" by (simp add: load_data_def)
  from load_loop_run [OF this] obtain recs rest where
    run: "load_run f32 K fl empty_store recs rest st" and len: "length recs = K" by blast
  from load_run_step_ok [OF run store_ok_empty]
  have ok: "step_ok empty_store (concat (map snd recs)) st" .
  let ?ks = "concat (map snd recs)"
  have dom: "\<forall>key. (indices st key \<noteq> None \<longleftrightarrow> key \<in> set ?ks) \<and>
            (indices st key \<noteq> None \<longleftrightarrow> arrays st key \<noteq> None)"
  proof
    fix key
    have "indices st key \<noteq> None \<longleftrightarrow> key \<in> set ?ks"
      using ok by (simp add: step_ok_def empty_store_def)
    moreover have "indices st key \<noteq> None \<longleftrightarrow> arrays st key \<noteq> None"
    proof -
      have "store_ok st" using ok by (simp add: step_ok_def)
      then have "case arrays st key of None \<Rightarrow> indices st key = None
        | Some a \<Rightarrow> (case indices st key of None \<Rightarrow> False
                  | Some idx \<Rightarrow> idx \<noteq> [] \<and> hd idx = 0 \<and> sorted idx \<and> last idx = array_len a)"
        unfolding store_ok_def by blast
      then show ?thesis by (auto split: option.splits)
    qed
    ultimately show "(indices st key \<noteq> None \<longleftrightarrow> key \<in> set ?ks) \<and>
            (indices st key \<noteq> None \<longleftrightarrow> arrays st key \<noteq> None)" by blast
  qed
  have idx: "\<forall>key idx. indices st key = Some idx \<longrightarrow>
         hd idx = 0 \<and> sorted idx \<and> length idx = 1 + count_list ?ks key \<and>
         ((\<forall>r \<in> set recs. count_list (snd r) key = 1) \<longrightarrow> length idx = K + 1)"
  proof (intro allI impI)
    fix key idx
    assume i: "indices st key = Some idx"
    have "store_ok st" using ok by (simp add: step_ok_def)
    then have "case arrays st key of None \<Rightarrow> indices st key = None
        | Some a \<Rightarrow> (case indices st key of None \<Rightarrow> False
                  | Some idx \<Rightarrow> idx \<noteq> [] \<and> hd idx = 0 \<and> sorted idx \<and> last idx = array_len a)"
      unfolding store_ok_def by blast
    with i have p: "idx \<noteq> [] \<and> hd idx = 0 \<and> sorted idx" by (auto split: option.splits)
    have "closes st key = closes empty_store key + count_list ?ks key"
      using ok by (simp add: step_ok_def)
    with i p have n: "length idx = 1 + count_list ?ks key"
      by (cases idx) (auto simp: closes_def empty_store_def)
    have "(\<forall>r \<in> set recs. count_list (snd r) key = 1) \<longrightarrow> length idx = K + 1"
    proof
      assume "\<forall>r \<in> set recs. count_list (snd r) key = 1"
      then have "count_list (concat (map snd recs)) key = length (map snd recs)"
        by (intro count_list_concat_ones) simp
      with n len show "length idx = K + 1" by simp
    qed
    with p n show "hd idx = 0 \<and> sorted idx \<and> length idx = 1 + count_list ?ks key \<and>
         ((\<forall>r \<in> set recs. count_list (snd r) key = 1) \<longrightarrow> length idx = K + 1)" by blast
  qed
  from run len dom idx show ?thesis by blast
qed

theorem index_entries_per_occurrence_witness:
  "\<exists>st. load_data (\<lambda>_. 0)
      ([20, 0, 0, 0, 0, 0, 0, 0, 1, 2, 3, 4,
        0x0A, 0x12, 0x0A, 0x10, 0x0A, 0x05, 0x6D, 0x61, 0x72, 0x6B, 0x73, 0x12, 0x07,
        0x1A, 0x05, 0x0A, 0x03, 0x03, 0x01, 0x04, 5, 6, 7, 8] @
       [17, 0, 0, 0, 0, 0, 0, 0, 1, 2, 3, 4,
        0x0A, 0x0F, 0x0A, 0x0D, 0x0A, 0x05, 0x6D, 0x61, 0x72, 0x6B, 0x73, 0x12, 0x04,
        0x1A, 0x02, 0x0A, 0x00, 5, 6, 7, 8]) 2 = Some (Inr st) \<and>
     indices st marks_key = Some [0, 3, 3] \<and>
     (\<exists>recs :: (byte list \<times> key list) list. length recs = 2 \<and>
        length [0, 3, 3 :: nat] = 1 + count_list (concat (map snd recs)) marks_key)"
proof -
  let ?fl = "[20, 0, 0, 0, 0, 0, 0, 0, 1, 2, 3, 4,
        0x0A, 0x12, 0x0A, 0x10, 0x0A, 0x05, 0x6D, 0x61, 0x72, 0x6B, 0x73, 0x12, 0x07,
        0x1A, 0x05, 0x0A, 0x03, 0x03, 0x01, 0x04, 5, 6, 7, 8] @
       [17, 0, 0, 0, 0, 0, 0, 0, 1, 2, 3, 4,
        0x0A, 0x0F, 0x0A, 0x0D, 0x0A, 0x05, 0x6D, 0x61, 0x72, 0x6B, 0x73, 0x12, 0x04,
        0x1A, 0x02, 0x0A, 0x00, 5, 6, 7, 8 :: byte]"
  have "(case load_data (\<lambda>_. 0) ?fl 2 of Some (Inr st) \<Rightarrow> indices st marks_key | _ \<Rightarrow> None)
        = Some [0, 3, 3]"
    by code_simp
  then obtain st where st: "load_data (\<lambda>_. 0) ?fl 2 = Some (Inr st)"
    and i: "indices st marks_key = Some [0, 3, 3]"
    by (auto split: option.splits sum.splits)
  from index_entries_per_occurrence [OF st] obtain recs :: "(byte list \<times> key list) list" where
    l: "length recs = 2"
    and a: "\<forall>key idx. indices st key = Some idx \<longrightarrow>
         hd idx = 0 \<and> sorted idx \<and>
         length idx = 1 + count_list (concat (map snd recs)) key \<and>
         ((\<forall>r \<in> set recs. count_list (snd r) key = 1) \<longrightarrow> length idx = 2 + 1)"
    by blast
  from a i have "length [0, 3, 3 :: nat] = 1 + count_list (concat (map snd recs)) marks_key"
    by blast
  with st i l show ?thesis by blast
qed




text \<open>
  C4, as stated: two length headers are consumed before the value data whatever the
  declared lengths, zero included. The claim fails on the code when the first header
  declares zero: in \<open>get_value_of_kind(kind) and get_value_of_kind(0x0A)\<close> the second
  call is not made then. On the bytes \<open>0A 00 0A 00\<close> the code consumes one header and stops
  at offset 2, where two headers would end at offset 4: the decoder closes a zero-width
  slice and leaves the offset at 2. An empty list is encoded that way (\<open>0A 00\<close> or
  \<open>1A 00\<close>), and the bytes that follow belong to the next entry.
\<close>

theorem one_header_for_zero_counterexample:
  "value_length 0x0A [0x0A, 0x00, 0x0A, 0x00] \<lparr>offset = 0, is_np = True\<rparr> =
     Inr (0, \<lparr>offset = 2, is_np = True\<rparr>) \<and>
   bind_res (get_value_of_kind 0x0A [0x0A, 0x00, 0x0A, 0x00] \<lparr>offset = 0, is_np = True\<rparr>)
     (\<lambda>(a, c1). get_value_of_kind 0x0A [0x0A, 0x00, 0x0A, 0x00] c1) =
     Inr (0, \<lparr>offset = 4, is_np = True\<rparr>) \<and>
   (case decode_value (\<lambda>_. 0) [0x0A, 0x00, 0x0A, 0x00] marks_key \<lparr>offset = 0, is_np = True\<rparr>
           \<lparr>arrays = [marks_key \<mapsto> \<lparr>typecode = TC_B, raw = [9]\<rparr>],
            indices = [marks_key \<mapsto> [0, 1]]\<rparr> of
      Inr (c, st) \<Rightarrow> Some (offset c, map_option raw (arrays st marks_key), indices st marks_key)
    | Inl e \<Rightarrow> None) = Some (2, Some [9], Some [0, 1, 1])"
  by code_simp

text \<open>
  C4, amended: the decoder is at a value whose dispatch byte is one of the three and whose
  first length header parses, in a payload shorter than \<open>2^63\<close>, for a key that has its
  array and its index array.
  \<^item> When the first header declares zero, no second header is consumed in any of the three
    branches: nothing is appended, a zero-width slice is closed and the offset is left just
    behind the first header.
  \<^item> Otherwise a second header with tag \<open>0A\<close> is consumed in all three branches, and the
    decoder fails as that header does when it is missing or broken. Its value is the
    length, and the value data starts just behind it.
  \<^item> Bytes branch, on a byte array: exactly as many raw bytes as the second header declares
    are appended and skipped, when the payload still has that many bytes.
  \<^item> Varint branch: the values are read from just behind the second header up to the
    offset that the declared length gives, and the slice is closed at the new length.
  \<^item> Float branch, on a float array: the whole 4-byte groups within the declared length are
    appended, and the offset moves by the declared length.
\<close>

theorem value_headers_and_bytes:
  assumes "get_value_of_kind kind data cur = Inr (a, c1)"
    and "kind = 0x0A \<or> kind = 0x1A \<or> kind = 0x12"
    and "0 \<le> offset cur" and "int (length data) < 2 ^ 63"
    and "arrays st key = Some arr" and "indices st key = Some idx"
  shows "(a = 0 \<longrightarrow>
       decode_value f32 data key cur st =
         Inr (if kind = 0x1A then c1 else \<lparr>offset = offset c1, is_np = True\<rparr>,
              st\<lparr>arrays := (arrays st)(key \<mapsto> arr),
                 indices := (indices st)(key \<mapsto> idx @ [array_len arr])\<rparr>)) \<and>
    (\<forall>e. a \<noteq> 0 \<and> get_value_of_kind 0x0A data c1 = Inl e \<longrightarrow>
       decode_value f32 data key cur st = Inl e) \<and>
    (\<forall>len c2. a \<noteq> 0 \<and> get_value_of_kind 0x0A data c1 = Inr (len, c2) \<longrightarrow>
       (kind = 0x0A \<and> typecode arr = TC_B \<and> 0 \<le> sint len \<and>
          offset c2 + sint len \<le> int (length data) \<longrightarrow>
          decode_value f32 data key cur st =
            Inr (\<lparr>offset = offset c2 + sint len, is_np = True\<rparr>,
                 st\<lparr>arrays := (arrays st)(key \<mapsto>
                         arr\<lparr>raw := raw arr @ take (nat (sint len)) (drop (nat (offset c2)) data)\<rparr>),
                    indices := (indices st)(key \<mapsto> idx @ [length (raw arr) + nat (sint len)])\<rparr>)) \<and>
       (kind = 0x1A \<longrightarrow>
          decode_value f32 data key cur st =
            bind_res (append_varints f32 data (offset (advance c2 len)) c2 arr) (\<lambda>(c', a').
              Inr (c', st\<lparr>arrays := (arrays st)(key \<mapsto> a'),
                          indices := (indices st)(key \<mapsto> idx @ [array_len a'])\<rparr>))) \<and>
       (kind = 0x12 \<and> typecode arr = TC_f \<and> 0 \<le> sint len \<and>
          offset c2 + sint len \<le> int (length data) \<longrightarrow>
          decode_value f32 data key cur st =
            Inr (\<lparr>offset = offset c2 + sint len, is_np = True\<rparr>,
                 st\<lparr>arrays := (arrays st)(key \<mapsto>
                         arr\<lparr>raw := raw arr @
                                 take (4 * nat (sint len div 4)) (drop (nat (offset c2)) data)\<rparr>),
                    indices := (indices st)(key \<mapsto>
                         idx @ [(length (raw arr) + 4 * nat (sint len div 4)) div 4])\<rparr>)))"
proof (intro conjI impI allI)
  assume "a = 0"
  with assms show "decode_value f32 data key cur st =
         Inr (if kind = 0x1A then c1 else \<lparr>offset = offset c1, is_np = True\<rparr>,
              st\<lparr>arrays := (arrays st)(key \<mapsto> arr),
                 indices := (indices st)(key \<mapsto> idx @ [array_len arr])\<rparr>)"
    by (intro decode_value_first_zero) simp_all
next
  fix e
  assume "a \<noteq> 0 \<and> get_value_of_kind 0x0A data c1 = Inl e"
  then show "decode_value f32 data key cur st = Inl e"
    using decode_value_second_fails [OF assms(1) _ assms(2)] by blast
next
  fix len c2
  assume n: "a \<noteq> 0 \<and> get_value_of_kind 0x0A data c1 = Inr (len, c2)"
    and k: "kind = 0x0A \<and> typecode arr = TC_B \<and> 0 \<le> sint len \<and>
          offset c2 + sint len \<le> int (length data)"
  from assms(1) k have g: "get_value_of_kind 0x0A data cur = Inr (a, c1)" by simp
  from get_value_of_kind_bounds [OF g]
  have bd: "offset cur < offset c1" "py_index data (offset cur) = Inr 0x0A" by simp_all
  from n have g2: "get_value_of_kind 0x0A data c1 = Inr (len, c2)" by simp
  from get_value_of_kind_bounds [OF g2] have bd2: "offset c1 < offset c2" by simp
  have v: "value_length 0x0A data cur = Inr (len, c2)"
    using value_length_nonzero [OF g] n by simp
  show "decode_value f32 data key cur st =
            Inr (\<lparr>offset = offset c2 + sint len, is_np = True\<rparr>,
                 st\<lparr>arrays := (arrays st)(key \<mapsto>
                         arr\<lparr>raw := raw arr @ take (nat (sint len)) (drop (nat (offset c2)) data)\<rparr>),
                    indices := (indices st)(key \<mapsto> idx @ [length (raw arr) + nat (sint len)])\<rparr>)"
    using k n bd bd2 assms by (intro decode_value_bytes [OF bd(2) v]) auto
next
  fix len c2
  assume n: "a \<noteq> 0 \<and> get_value_of_kind 0x0A data c1 = Inr (len, c2)" and k: "kind = 0x1A"
  from assms(1) k have g: "get_value_of_kind 0x1A data cur = Inr (a, c1)" by simp
  from n show "decode_value f32 data key cur st =
            bind_res (append_varints f32 data (offset (advance c2 len)) c2 arr) (\<lambda>(c', a').
              Inr (c', st\<lparr>arrays := (arrays st)(key \<mapsto> a'),
                          indices := (indices st)(key \<mapsto> idx @ [array_len a'])\<rparr>))"
    by (intro decode_value_varints [OF g _ _ assms(5) assms(6)]) simp_all
next
  fix len c2
  assume n: "a \<noteq> 0 \<and> get_value_of_kind 0x0A data c1 = Inr (len, c2)"
    and k: "kind = 0x12 \<and> typecode arr = TC_f \<and> 0 \<le> sint len \<and>
          offset c2 + sint len \<le> int (length data)"
  from assms(1) k have g: "get_value_of_kind 0x12 data cur = Inr (a, c1)" by simp
  from n k show "decode_value f32 data key cur st =
            Inr (\<lparr>offset = offset c2 + sint len, is_np = True\<rparr>,
                 st\<lparr>arrays := (arrays st)(key \<mapsto>
                         arr\<lparr>raw := raw arr @
                                 take (4 * nat (sint len div 4)) (drop (nat (offset c2)) data)\<rparr>),
                    indices := (indices st)(key \<mapsto>
                         idx @ [(length (raw arr) + 4 * nat (sint len div 4)) div 4])\<rparr>)"
    by (intro decode_value_floats [OF g _ _ assms(5) _ assms(6) assms(3) _ _ assms(4)]) simp_all
qed

theorem value_headers_and_bytes_witness:
  "decode_value (\<lambda>_. 0) [0x0A, 0x03, 0x0A, 0x01, 0x07] marks_key \<lparr>offset = 0, is_np = True\<rparr>
     \<lparr>arrays = [marks_key \<mapsto> \<lparr>typecode = TC_B, raw = [9]\<rparr>], indices = [marks_key \<mapsto> [0, 1]]\<rparr> =
     Inr (\<lparr>offset = 5, is_np = True\<rparr>,
          \<lparr>arrays = [marks_key \<mapsto> \<lparr>typecode = TC_B, raw = [9, 7]\<rparr>],
           indices = [marks_key \<mapsto> [0, 1, 2]]\<rparr>) \<and>
   decode_value (\<lambda>_. 0) [0x1A, 0x03, 0x0A, 0x01, 0x07] marks_key \<lparr>offset = 0, is_np = True\<rparr>
     \<lparr>arrays = [marks_key \<mapsto> \<lparr>typecode = TC_q, raw = []\<rparr>], indices = [marks_key \<mapsto> [0]]\<rparr> =
     Inr (\<lparr>offset = 5, is_np = True\<rparr>,
          \<lparr>arrays = [marks_key \<mapsto> \<lparr>typecode = TC_q, raw = [7, 0, 0, 0, 0, 0, 0, 0]\<rparr>],
           indices = [marks_key \<mapsto> [0, 1]]\<rparr>) \<and>
   decode_value (\<lambda>_. 0) [0x12, 0x00, 0x0A, 0x00] marks_key \<lparr>offset = 0, is_np = True\<rparr>
     \<lparr>arrays = [marks_key \<mapsto> \<lparr>typecode = TC_f, raw = [1, 2, 3, 4]\<rparr>],
      indices = [marks_key \<mapsto> [0, 1]]\<rparr> =
     Inr (\<lparr>offset = 2, is_np = True\<rparr>,
          \<lparr>arrays = [marks_key \<mapsto> \<lparr>typecode = TC_f, raw = [1, 2, 3, 4]\<rparr>],
           indices = [marks_key \<mapsto> [0, 1, 1]]\<rparr>)"
proof -
  let ?c0 = "\<lparr>offset = 0, is_np = True\<rparr>"
  let ?c2 = "\<lparr>offset = 2, is_np = True\<rparr>"
  let ?c4 = "\<lparr>offset = 4, is_np = True\<rparr>"
  let ?B = "[0x0A, 0x03, 0x0A, 0x01, 0x07] :: byte list"
  let ?V = "[0x1A, 0x03, 0x0A, 0x01, 0x07] :: byte list"
  let ?F = "[0x12, 0x00, 0x0A, 0x00] :: byte list"
  let ?ab = "\<lparr>typecode = TC_B, raw = [9 :: byte]\<rparr>"
  let ?aq = "\<lparr>typecode = TC_q, raw = [] :: byte list\<rparr>"
  let ?af = "\<lparr>typecode = TC_f, raw = [1, 2, 3, 4 :: byte]\<rparr>"
  let ?sb = "\<lparr>arrays = [marks_key \<mapsto> ?ab], indices = [marks_key \<mapsto> [0, 1]]\<rparr>"
  let ?sq = "\<lparr>arrays = [marks_key \<mapsto> ?aq], indices = [marks_key \<mapsto> [0]]\<rparr>"
  let ?sf = "\<lparr>arrays = [marks_key \<mapsto> ?af], indices = [marks_key \<mapsto> [0, 1]]\<rparr>"
  have b1: "get_value_of_kind 0x0A ?B ?c0 = Inr (3, ?c2)" by code_simp
  have b2: "(3 :: int64) \<noteq> 0 \<and> get_value_of_kind 0x0A ?B ?c2 = Inr (1, ?c4)" by code_simp
  have v1: "get_value_of_kind 0x1A ?V ?c0 = Inr (3, ?c2)" by code_simp
  have v2: "(3 :: int64) \<noteq> 0 \<and> get_value_of_kind 0x0A ?V ?c2 = Inr (1, ?c4)" by code_simp
  have av: "append_varints (\<lambda>_. 0) ?V (offset (advance ?c4 1)) ?c4 ?aq =
      Inr (\<lparr>offset = 5, is_np = True\<rparr>, \<lparr>typecode = TC_q, raw = [7, 0, 0, 0, 0, 0, 0, 0]\<rparr>)"
    by code_simp
  have f1: "get_value_of_kind 0x12 ?F ?c0 = Inr (0, ?c2)" by code_simp
  have kb: "(0x0A :: byte) = 0x0A \<or> (0x0A :: byte) = 0x1A \<or> (0x0A :: byte) = 0x12" by simp
  have kv: "(0x1A :: byte) = 0x0A \<or> (0x1A :: byte) = 0x1A \<or> (0x1A :: byte) = 0x12" by simp
  have kf: "(0x12 :: byte) = 0x0A \<or> (0x12 :: byte) = 0x1A \<or> (0x12 :: byte) = 0x12" by simp
  have o: "0 \<le> offset ?c0" by simp
  have lb: "int (length ?B) < 2 ^ 63" and lv: "int (length ?V) < 2 ^ 63"
    and lf: "int (length ?F) < 2 ^ 63" by simp_all
  have sb: "arrays ?sb marks_key = Some ?ab" "indices ?sb marks_key = Some [0, 1]" by simp_all
  have sq: "arrays ?sq marks_key = Some ?aq" "indices ?sq marks_key = Some [0]" by simp_all
  have sf: "arrays ?sf marks_key = Some ?af" "indices ?sf marks_key = Some [0, 1]" by simp_all
  note tb = value_headers_and_bytes [OF b1 kb o lb sb, where ?f32.0 = "\<lambda>_. 0"]
  note tv = value_headers_and_bytes [OF v1 kv o lv sq, where ?f32.0 = "\<lambda>_. 0"]
  note tf = value_headers_and_bytes [OF f1 kf o lf sf, where ?f32.0 = "\<lambda>_. 0"]
  have hb: "(0x0A :: byte) = 0x0A \<and> typecode ?ab = TC_B \<and> 0 \<le> sint (1 :: int64) \<and>
      offset ?c4 + sint (1 :: int64) \<le> int (length ?B)" by simp
  from tb [THEN conjunct2, THEN conjunct2, THEN spec, THEN spec, THEN mp, OF b2,
      THEN conjunct1, THEN mp, OF hb]
  have 1: "decode_value (\<lambda>_. 0) ?B marks_key ?c0 ?sb =
     Inr (\<lparr>offset = 5, is_np = True\<rparr>,
          \<lparr>arrays = [marks_key \<mapsto> \<lparr>typecode = TC_B, raw = [9, 7]\<rparr>],
           indices = [marks_key \<mapsto> [0, 1, 2]]\<rparr>)"
    by (simp add: numeral_2_eq_2)
  have hv: "(0x1A :: byte) = 0x1A" by simp
  from tv [THEN conjunct2, THEN conjunct2, THEN spec, THEN spec, THEN mp, OF v2,
      THEN conjunct2, THEN conjunct1, THEN mp, OF hv]
  have 2: "decode_value (\<lambda>_. 0) ?V marks_key ?c0 ?sq =
     Inr (\<lparr>offset = 5, is_np = True\<rparr>,
          \<lparr>arrays = [marks_key \<mapsto> \<lparr>typecode = TC_q, raw = [7, 0, 0, 0, 0, 0, 0, 0]\<rparr>],
           indices = [marks_key \<mapsto> [0, 1]]\<rparr>)"
    unfolding av by (simp add: bind_res_def array_len_def)
  have z: "(0 :: int64) = 0" by simp
  from tf [THEN conjunct1, THEN mp, OF z]
  have 3: "decode_value (\<lambda>_. 0) ?F marks_key ?c0 ?sf =
     Inr (\<lparr>offset = 2, is_np = True\<rparr>,
          \<lparr>arrays = [marks_key \<mapsto> ?af], indices = [marks_key \<mapsto> [0, 1, 1]]\<rparr>)"
    by (simp add: array_len_def)
  from 1 2 3 show ?thesis by (intro conjI)
qed

text \<open>
  C6: when the decoder is at an entry whose header parses and whose dispatch byte \<open>b\<close> is
  none of \<open>0A\<close>, \<open>1A\<close>, \<open>12\<close>, decoding the entry fails with
  \<open>ValueError("Unsupported data tag b")\<close>, and so do the loop over the entries started in
  any state from which that entry is reached, the record, and the load of a file in which
  the records before it were decoded. The failed load returns no dictionaries; at the
  point of the failure every array that existed before the entry, and its index array, is
  as it was (only the empty array of a key first met in this entry has been added).
\<close>

theorem unsupported_tag_fails:
  assumes h: "entry_header data cur st = Inr (key, c, st1)"
    and b: "py_index data (offset c) = Inr b" and nb: "b \<notin> {0x0A, 0x1A, 0x12}"
    and lt: "offset cur < int (length data)"
  shows "decode_entry f32 data cur st = Inl (UnsupportedTag b) \<and>
    (\<forall>s keys. entries_steps f32 data s keys (cur, st) \<longrightarrow>
       decode_entries f32 data (fst s) (snd s) = Some (Inl (UnsupportedTag b))) \<and>
    (\<forall>len c0 st0 keys.
       get_value_of_kind 0x0A data \<lparr>offset = 0, is_np = False\<rparr> = Inr (len, c0) \<and>
       int (length data) - offset c0 = sint len \<and>
       entries_steps f32 data (c0, st0) keys (cur, st) \<longrightarrow>
       decode_record f32 data st0 = Some (Inl (UnsupportedTag b)) \<and>
       (\<forall>fs c1 c2 rest m stp.
          (\<forall>r \<in> set fs. frame_ok r) \<and> frame_ok (c1, data, c2) \<and>
          decode_records f32 (map payload fs) stp = Some (Inr st0) \<longrightarrow>
          load_loop f32 (length fs + Suc m) (concat (map frame fs) @ frame (c1, data, c2) @ rest) stp
            = Some (Inl (UnsupportedTag b)))) \<and>
    (\<forall>k a. arrays st k = Some a \<longrightarrow> arrays st1 k = Some a \<and> indices st1 k = indices st k)"
proof -
  from nb have nb': "b \<noteq> 0x0A" "b \<noteq> 0x1A" "b \<noteq> 0x12" by auto
  have e: "decode_entry f32 data cur st = Inl (UnsupportedTag b)"
    using h decode_value_unsupported [OF b nb'] by (simp add: decode_entry_def bind_res_def)
  have steps: "\<And>s keys. entries_steps f32 data s keys (cur, st) \<Longrightarrow>
       decode_entries f32 data (fst s) (snd s) = Some (Inl (UnsupportedTag b))"
    by (rule entries_steps_fail [OF _ lt e])
  have rec: "decode_record f32 data st0 = Some (Inl (UnsupportedTag b))"
    if "get_value_of_kind 0x0A data \<lparr>offset = 0, is_np = False\<rparr> = Inr (len, c0)"
      "int (length data) - offset c0 = sint len" "entries_steps f32 data (c0, st0) keys (cur, st)"
    for len c0 st0 keys
    using that steps [OF that(3)] by (simp add: decode_record_def)
  have load: "load_loop f32 (length fs + Suc m) (concat (map frame fs) @ frame (c1, data, c2) @ rest) stp
            = Some (Inl (UnsupportedTag b))"
    if r: "decode_record f32 data st0 = Some (Inl (UnsupportedTag b))"
      and f: "\<forall>r \<in> set fs. frame_ok r" "frame_ok (c1, data, c2)"
      "decode_records f32 (map payload fs) stp = Some (Inr st0)"
    for fs c1 c2 rest m stp st0
  proof -
    have "read_record (frame (c1, data, c2) @ rest) = Inr (data, rest)"
      using read_record_frame_ok [OF f(2), of rest] by (simp add: payload_def)
    then have "load_loop f32 (Suc m) (frame (c1, data, c2) @ rest) st0 = Some (Inl (UnsupportedTag b))"
      using r by simp
    with load_loop_frames [OF f(1), of f32 "Suc m" "frame (c1, data, c2) @ rest" stp] f(3)
    show ?thesis by simp
  qed
  have keep: "\<forall>k a. arrays st k = Some a \<longrightarrow> arrays st1 k = Some a \<and> indices st1 k = indices st k"
  proof -
    from entry_header_effect [OF h] show ?thesis
    proof
      assume "arrays st key \<noteq> None \<and> st1 = st"
      then show ?thesis by simp
    next
      assume "arrays st key = None \<and> (\<exists>b. py_index data (offset c) = Inr b \<and>
            st1 = st\<lparr>arrays := (arrays st)(key \<mapsto> new_array b),
                      indices := (indices st)(key \<mapsto> [0])\<rparr>)"
      then show ?thesis by auto
    qed
  qed
  from e steps rec load keep show ?thesis by blast
qed

theorem unsupported_tag_fails_witness:
  "\<exists>st1. entry_header [0x0A, 0x0D, 0x0A, 0x0B, 0x0A, 0x05, 0x6D, 0x61, 0x72, 0x6B, 0x73, 0x12, 0x02, 0xFF, 0x00]
       \<lparr>offset = 2, is_np = False\<rparr> empty_store = Inr (marks_key, \<lparr>offset = 13, is_np = True\<rparr>, st1) \<and>
     py_index [0x0A, 0x0D, 0x0A, 0x0B, 0x0A, 0x05, 0x6D, 0x61, 0x72, 0x6B, 0x73, 0x12, 0x02, 0xFF, 0x00 :: byte] 13
       = Inr 0xFF \<and>
     decode_entry (\<lambda>_. 0) [0x0A, 0x0D, 0x0A, 0x0B, 0x0A, 0x05, 0x6D, 0x61, 0x72, 0x6B, 0x73, 0x12, 0x02, 0xFF, 0x00]
       \<lparr>offset = 2, is_np = False\<rparr> empty_store = Inl (UnsupportedTag 0xFF) \<and>
     decode_record (\<lambda>_. 0) [0x0A, 0x0D, 0x0A, 0x0B, 0x0A, 0x05, 0x6D, 0x61, 0x72, 0x6B, 0x73, 0x12, 0x02, 0xFF, 0x00]
       empty_store = Some (Inl (UnsupportedTag 0xFF))"
proof -
  let ?D = "[0x0A, 0x0D, 0x0A, 0x0B, 0x0A, 0x05, 0x6D, 0x61, 0x72, 0x6B, 0x73, 0x12, 0x02, 0xFF, 0x00] :: byte list"
  let ?cur = "\<lparr>offset = 2, is_np = False\<rparr>"
  let ?c = "\<lparr>offset = 13, is_np = True\<rparr>"
  have "(case entry_header ?D ?cur empty_store of
           Inr (k, c, s) \<Rightarrow> k = marks_key \<and> c = ?c | _ \<Rightarrow> False)"
    by code_simp
  then obtain st1 where h: "entry_header ?D ?cur empty_store = Inr (marks_key, ?c, st1)"
    by (auto split: sum.splits)
  have b: "py_index ?D (offset ?c) = Inr 0xFF" by code_simp
  have nb: "(0xFF :: byte) \<notin> {0x0A, 0x1A, 0x12}" by simp
  have lt: "offset ?cur < int (length ?D)" by simp
  have g: "get_value_of_kind 0x0A ?D \<lparr>offset = 0, is_np = False\<rparr> = Inr (13, ?cur)"
    by code_simp
  note t = unsupported_tag_fails [OF h b nb lt, where ?f32.0 = "\<lambda>_. 0"]
  have e: "decode_entry (\<lambda>_. 0) ?D ?cur empty_store = Inl (UnsupportedTag 0xFF)"
    by (rule t [THEN conjunct1])
  have p: "get_value_of_kind 0x0A ?D \<lparr>offset = 0, is_np = False\<rparr> = Inr (13, ?cur) \<and>
       int (length ?D) - offset ?cur = sint (13 :: int64) \<and>
       entries_steps (\<lambda>_. 0) ?D (?cur, empty_store) [] (?cur, empty_store)"
    using g by (simp add: entries_steps.no_entry)
  from t [THEN conjunct2, THEN conjunct2, THEN conjunct1, THEN spec, THEN spec, THEN spec, THEN spec,
      THEN mp, OF p, THEN conjunct1]
  have r: "decode_record (\<lambda>_. 0) ?D empty_store = Some (Inl (UnsupportedTag 0xFF))" .
  have b': "py_index ?D 13 = Inr 0xFF" using b by simp
  from h b' e r show ?thesis by blast
qed

text \<open>
  C8: the loader reads exactly \<open>N\<close> records in order, each made of an 8-byte
  little-endian length \<open>L\<close>, 4 bytes that are ignored, \<open>L\<close> bytes of payload and 4 more
  ignored bytes. On a file that starts with \<open>N\<close> such records the load is the decoding of
  their payloads in order, whatever follows them; a successful load of \<open>N\<close> records implies
  that the file starts with \<open>N\<close> such records; reading a record fails, with a failed
  \<open>assert\<close> (or the \<open>OverflowError\<close> of a length of \<open>2^63\<close> or more), exactly when the
  file does not start with a complete record, the empty rest of a file included, so a
  file with fewer than \<open>N\<close> records makes the load fail once the records before were
  decoded.
\<close>

theorem framer_reads_exactly_N:
  "((\<forall>r \<in> set fs. frame_ok r) \<longrightarrow>
      load_loop f32 (length fs) (concat (map frame fs) @ rest) st =
        decode_records f32 (map payload fs) st) \<and>
   (load_loop f32 N fl st = Some (Inr st') \<longrightarrow>
      (\<exists>fs rest. length fs = N \<and> (\<forall>r \<in> set fs. frame_ok r) \<and>
         fl = concat (map frame fs) @ rest \<and>
         decode_records f32 (map payload fs) st = Some (Inr st'))) \<and>
   ((\<exists>e. read_record fl = Inl e) \<longleftrightarrow> \<not> (\<exists>r rest. frame_ok r \<and> fl = frame r @ rest)) \<and>
   (\<forall>e. read_record fl = Inl e \<longrightarrow> e = AssertionError \<or> e = OverflowError) \<and>
   ((\<forall>r \<in> set fs. frame_ok r) \<and> decode_records f32 (map payload fs) st = Some (Inr st1) \<and>
    read_record rest = Inl e \<longrightarrow>
      load_loop f32 (length fs + Suc m) (concat (map frame fs) @ rest) st = Some (Inl e))"
proof (intro conjI impI allI)
  assume f: "\<forall>r \<in> set fs. frame_ok r"
  show "load_loop f32 (length fs) (concat (map frame fs) @ rest) st =
        decode_records f32 (map payload fs) st"
    using load_loop_frames [OF f, of f32 0 rest st]
    by (simp split: option.splits sum.splits)
next
  assume "load_loop f32 N fl st = Some (Inr st')"
  then show "\<exists>fs rest. length fs = N \<and> (\<forall>r \<in> set fs. frame_ok r) \<and>
         fl = concat (map frame fs) @ rest \<and>
         decode_records f32 (map payload fs) st = Some (Inr st')"
    by (rule load_loop_Inr_frames)
next
  show "(\<exists>e. read_record fl = Inl e) \<longleftrightarrow> \<not> (\<exists>r rest. frame_ok r \<and> fl = frame r @ rest)"
    by (rule read_record_Inl_iff)
next
  fix e
  assume "read_record fl = Inl e"
  then show "e = AssertionError \<or> e = OverflowError" by (rule read_record_Inl)
next
  assume a: "(\<forall>r \<in> set fs. frame_ok r) \<and> decode_records f32 (map payload fs) st = Some (Inr st1) \<and>
    read_record rest = Inl e"
  then have f: "\<forall>r \<in> set fs. frame_ok r" by blast
  show "load_loop f32 (length fs + Suc m) (concat (map frame fs) @ rest) st = Some (Inl e)"
    using load_loop_frames [OF f, of f32 "Suc m" rest st] a by simp
qed

theorem framer_reads_exactly_N_witness:
  "frame_ok ([1, 2, 3, 4], [0x0A, 0x00], [5, 6, 7, 8]) \<and>
   load_loop (\<lambda>_. 0) 1 ([2, 0, 0, 0, 0, 0, 0, 0, 1, 2, 3, 4, 0x0A, 0x00, 5, 6, 7, 8] @ [9, 9]) empty_store =
     decode_records (\<lambda>_. 0) [[0x0A, 0x00]] empty_store \<and>
   read_record [9, 9] = Inl AssertionError \<and>
   load_loop (\<lambda>_. 0) 3 [9, 9] empty_store = Some (Inl AssertionError)"
proof -
  let ?fs = "[([1, 2, 3, 4], [0x0A, 0x00], [5, 6, 7, 8])] :: (byte list \<times> byte list \<times> byte list) list"
  have ok: "\<forall>r \<in> set ?fs. frame_ok r" by (simp add: frame_ok_def)
  have fr: "concat (map frame ?fs) = [2, 0, 0, 0, 0, 0, 0, 0, 1, 2, 3, 4, 0x0A, 0x00, 5, 6, 7, 8]"
    by code_simp
  have rr: "read_record [9, 9] = Inl AssertionError" by code_simp
  note t = framer_reads_exactly_N [where fs = ?fs and ?f32.0 = "\<lambda>_. 0" and rest = "[9, 9]"
      and st = empty_store]
  have 1: "load_loop (\<lambda>_. 0) (length ?fs) (concat (map frame ?fs) @ [9, 9]) empty_store =
        decode_records (\<lambda>_. 0) (map payload ?fs) empty_store"
    by (rule t [THEN conjunct1, THEN mp, OF ok])
  note u = framer_reads_exactly_N [where fs = "[]" and ?f32.0 = "\<lambda>_. 0" and rest = "[9, 9]"
      and st = empty_store and ?st1.0 = empty_store and e = AssertionError and m = 2]
  have "(\<forall>r \<in> set []. frame_ok r) \<and>
      decode_records (\<lambda>_. 0) (map payload []) empty_store = Some (Inr empty_store) \<and>
      read_record [9, 9] = Inl AssertionError"
    using rr by simp
  from u [THEN conjunct2, THEN conjunct2, THEN conjunct2, THEN conjunct2, THEN mp, OF this]
  have 2: "load_loop (\<lambda>_. 0) 3 [9, 9] empty_store = Some (Inl AssertionError)"
    by simp
  have fst_rec: "load_loop (\<lambda>_. 0) 1 ([2, 0, 0, 0, 0, 0, 0, 0, 1, 2, 3, 4, 0x0A, 0x00, 5, 6, 7, 8] @ [9, 9]) empty_store =
     decode_records (\<lambda>_. 0) [[0x0A, 0x00]] empty_store"
    using 1 unfolding fr by (simp add: payload_def)
  have ok1: "frame_ok ([1, 2, 3, 4], [0x0A, 0x00], [5, 6, 7, 8])" by (simp add: frame_ok_def)
  from ok1 rr fst_rec 2 show ?thesis by (intro conjI)
qed

text \<open>
  C5, as stated: among other things, an empty gold sequence with a non-empty prediction
  scores exactly the length of the prediction, for every configuration of the metric. The
  claim fails on the code when an ignore token is configured and occurs in the prediction:
  with the ignore token 0, the prediction \<open>[0]\<close> and the empty gold sequence the score is
  0, not 1, because the token is removed from the prediction before the distance is
  computed.
\<close>

theorem empty_gold_score_counterexample:
  "example_score (Some (0 :: nat)) [0] [] = 0 \<and> length [0 :: nat] = 1 \<and>
   mean_value (update (metric_init (Some (0 :: nat))) [[0]] [[]]) = 0"
  by (simp add: example_score_def update_def mean_update_def metric_init_def)

text \<open>
  C5, amended: the score of an example is the edit distance of the two sequences after the
  removal of the ignore token (no removal when none is configured), divided by the
  length of the gold sequence after the removal, or by 1 when that is empty. A gold
  sequence that is empty after the removal scores exactly the length of the prediction
  after the removal, which is the length of the prediction when no ignore token is
  configured; a prediction equal to the gold sequence scores 0. After any sequence of
  calls of \<open>update\<close>, \<open>compute\<close> is the arithmetic mean of all the scores recorded (not
  a number when there is none); the scores 0, 0, 1, 1 give 1/2, and 50 after the
  multiplication by 100 that \<open>evaluate\<close> does. Numbers are exact here, as said above.
\<close>

theorem edit_distance_metric:
  "example_score ignore y_pred y_true =
     of_nat (edit_distance (filter_ignore ignore y_pred) (filter_ignore ignore y_true)) /
     of_nat (max (length (filter_ignore ignore y_true)) 1) \<and>
   filter_ignore None y_pred = y_pred \<and>
   filter_ignore (Some i) y_pred = filter (\<lambda>y. y \<noteq> i) y_pred \<and>
   (filter_ignore ignore y_true = [] \<longrightarrow>
      example_score ignore y_pred y_true = of_nat (length (filter_ignore ignore y_pred))) \<and>
   (y_true = [] \<longrightarrow> example_score None y_pred y_true = of_nat (length y_pred)) \<and>
   example_score ignore y_true y_true = 0 \<and>
   compute (foldl (\<lambda>m (ps, ts). update m ps ts) (metric_init ignore) batches) =
     (if concat (map (batch_scores ignore) batches) = [] then None
      else Some (sum_list (concat (map (batch_scores ignore) batches)) /
                 of_nat (length (concat (map (batch_scores ignore) batches))))) \<and>
   compute (mean_update (metric_init ignore) [0, 0, 1, 1]) = Some (1 / 2) \<and>
   map_option (\<lambda>r. 100 * r) (compute (mean_update (metric_init ignore) [0, 0, 1, 1])) = Some 50"
proof (intro conjI impI)
  show "example_score ignore y_pred y_true =
     of_nat (edit_distance (filter_ignore ignore y_pred) (filter_ignore ignore y_true)) /
     of_nat (max (length (filter_ignore ignore y_true)) 1)"
    by (rule example_score_eq)
  show "filter_ignore None y_pred = y_pred" by (simp add: filter_ignore_def)
  show "filter_ignore (Some i) y_pred = filter (\<lambda>y. y \<noteq> i) y_pred" by (simp add: filter_ignore_def)
  show "example_score ignore y_true y_true = 0"
    by (simp add: example_score_eq edit_distance_same)
  show "compute (foldl (\<lambda>m (ps, ts). update m ps ts) (metric_init ignore) batches) =
     (if concat (map (batch_scores ignore) batches) = [] then None
      else Some (sum_list (concat (map (batch_scores ignore) batches)) /
                 of_nat (length (concat (map (batch_scores ignore) batches)))))"
    by (simp add: foldl_update compute_def metric_init_def)
  show "compute (mean_update (metric_init ignore) [0, 0, 1, 1]) = Some (1 / 2)"
    by (simp add: mean_update_def compute_def metric_init_def)
  show "map_option (\<lambda>r. 100 * r) (compute (mean_update (metric_init ignore) [0, 0, 1, 1])) = Some 50"
    by (simp add: mean_update_def compute_def metric_init_def)
next
  assume "filter_ignore ignore y_true = []"
  then show "example_score ignore y_pred y_true = of_nat (length (filter_ignore ignore y_pred))"
    by (simp add: example_score_eq edit_distance_Nil2)
next
  assume "y_true = []"
  then show "example_score None y_pred y_true = of_nat (length y_pred)"
    by (simp add: example_score_eq edit_distance_Nil2 filter_ignore_def)
qed

theorem edit_distance_metric_witness:
  "filter_ignore (Some (0 :: nat)) [0] = [] \<and>
   example_score (Some (0 :: nat)) [1, 0, 2] [0] = 2 \<and>
   example_score None [1, 0, 2 :: nat] [] = 3"
proof -
  note t = edit_distance_metric [where ignore = "Some (0 :: nat)" and y_pred = "[1, 0, 2]"
      and y_true = "[0]"]
  note u = edit_distance_metric [where y_pred = "[1, 0, 2 :: nat]" and y_true = "[]"]
  have h: "filter_ignore (Some (0 :: nat)) [0] = []" by (simp add: filter_ignore_def)
  from t [THEN conjunct2, THEN conjunct2, THEN conjunct2, THEN conjunct1, THEN mp, OF h]
  have 1: "example_score (Some (0 :: nat)) [1, 0, 2] [0] = 2"
    by (simp add: filter_ignore_def)
  from u [THEN conjunct2, THEN conjunct2, THEN conjunct2, THEN conjunct2, THEN conjunct1, THEN mp, OF refl]
  have 2: "example_score None [1, 0, 2 :: nat] [] = 3" by simp
  from h 1 2 show ?thesis by (intro conjI)
qed

text \<open>
  C7, as stated: with \<open>n\<close> the number of examples of the gold dataset, \<open>m \<noteq> n\<close>
  predictions make \<open>evaluate\<close> fail and \<open>m = n\<close> predictions are all scored. The claim
  fails on the code for a dataset of two records that decodes on demand and whose second
  record is an example without features (the payload \<open>0A 00\<close>): \<open>len\<close> of the dataset
  is 2, but \<open>for example in gold_dataset\<close> ends at the \<open>IndexError\<close> of index 1 and
  yields one gold sentence. One prediction is scored and a score is returned; two
  predictions raise the \<open>RuntimeError\<close> of line 158, "2 vs 1".
\<close>

theorem size_check_on_demand_counterexample:
  "(case dataset_init (\<lambda>bs. Inr bs) (\<lambda>_. 0)
      ([0x23, 0, 0, 0, 0, 0, 0, 0, 1, 2, 3, 4,
        0x0A, 0x21,
        0x0A, 0x0F, 0x0A, 0x05, 0x69, 0x6D, 0x61, 0x67, 0x65, 0x12, 0x06, 0x0A, 0x04, 0x0A, 0x02, 0x01, 0x02,
        0x0A, 0x0E, 0x0A, 0x05, 0x6D, 0x61, 0x72, 0x6B, 0x73, 0x12, 0x05, 0x1A, 0x03, 0x0A, 0x01, 0x03,
        5, 6, 7, 8] @
       [2, 0, 0, 0, 0, 0, 0, 0, 1, 2, 3, 4, 0x0A, 0x00, 5, 6, 7, 8]) 2 True of
      Some (Inr ds) \<Rightarrow>
        Some (ds_size ds,
              evaluate [''<pad>'', ''barline'', ''clef-C1'', ''clef-C2''] (\<lambda>bs. Inr bs) ds [[''clef-C2'']],
              evaluate [''<pad>'', ''barline'', ''clef-C1'', ''clef-C2''] (\<lambda>bs. Inr bs) ds
                [[''clef-C2''], [''barline'']])
    | _ \<Rightarrow> None) = Some (2, Inr (Some 0), Inl (RuntimeError 2 1))"
  by code_simp

text \<open>
  C7, amended: \<open>evaluate\<close> compares the number of predictions with the number of gold
  sentences that iterating the dataset yields, not with \<open>len\<close> of the dataset. The
  iteration calls \<open>__getitem__\<close> with 0, 1, 2, ... and the gold sentences are those of
  the indices before the first one at which \<open>__getitem__\<close> raises \<open>IndexError\<close>. When
  building them raises, \<open>evaluate\<close> raises the same and returns no score. With a
  different number of predictions \<open>evaluate\<close> raises the \<open>RuntimeError\<close> of line 158
  and returns no score; with the same number it returns 100 times the mean of the scores
  of all the pairs (not a number when there is none). The number of gold sentences is
  \<open>len\<close> of the dataset when \<open>__getitem__\<close> succeeds at every index below \<open>len\<close> and
  raises \<open>IndexError\<close> at \<open>len\<close>; it is so for every dataset of at least one example
  that was built with all examples decoded at construction.
\<close>

theorem evaluate_size_check:
  "(\<forall>e. gold_from MARKS dec ds 0 = Inl e \<longrightarrow> evaluate MARKS dec ds predictions = Inl e) \<and>
   (\<forall>gold. gold_from MARKS dec ds 0 = Inr gold \<longrightarrow>
      (length predictions \<noteq> length gold \<longrightarrow>
         evaluate MARKS dec ds predictions = Inl (RuntimeError (length predictions) (length gold))) \<and>
      (length predictions = length gold \<longrightarrow>
         evaluate MARKS dec ds predictions =
           Inr (if gold = [] then None
                else Some (100 * (sum_list (map (\<lambda>(g, p). example_score None p g) (zip gold predictions)) /
                                  of_nat (length gold)))) \<and>
         length (zip gold predictions) = length gold) \<and>
      (\<forall>i < length gold. \<exists>x. getitem dec ds (int i) = Inr x \<and>
           marks_to_strings MARKS (marks x) = Inr (gold ! i)) \<and>
      getitem dec ds (int (length gold)) = Inl IndexError \<and>
      ((\<forall>i < ds_size ds. \<exists>x. getitem dec ds (int i) = Inr x) \<and>
         getitem dec ds (int (ds_size ds)) = Inl IndexError \<longrightarrow> length gold = ds_size ds) \<and>
      (\<forall>xs. ds_data ds = Some xs \<and> xs \<noteq> [] \<longrightarrow> length gold = length xs) \<and>
      (\<forall>f32 fl sz. 0 < sz \<and> dataset_init dec f32 fl sz False = Some (Inr ds) \<longrightarrow>
         length gold = sz \<and> ds_size ds = sz))"
proof (intro conjI allI impI)
  fix e assume "gold_from MARKS dec ds 0 = Inl e"
  then show "evaluate MARKS dec ds predictions = Inl e"
    by (simp add: evaluate_def bind_res_def)
next
  fix gold
  assume g: "gold_from MARKS dec ds 0 = Inr gold"
  {
    assume "length predictions \<noteq> length gold"
    with g show "evaluate MARKS dec ds predictions =
        Inl (RuntimeError (length predictions) (length gold))"
      by (simp add: evaluate_def bind_res_def)
  next
    assume l: "length predictions = length gold"
    then show "length (zip gold predictions) = length gold" by simp
    from l g show "evaluate MARKS dec ds predictions =
           Inr (if gold = [] then None
                else Some (100 * (sum_list (map (\<lambda>(g, p). example_score None p g) (zip gold predictions)) /
                                  of_nat (length gold))))"
      by (simp add: evaluate_def bind_res_def foldl_evaluate compute_def metric_init_def)
  next
    fix i assume "i < length gold"
    with gold_from_items [OF g]
    show "\<exists>x. getitem dec ds (int i) = Inr x \<and> marks_to_strings MARKS (marks x) = Inr (gold ! i)"
      by simp
  next
    from gold_from_items [OF g]
    show "getitem dec ds (int (length gold)) = Inl IndexError" by simp
  next
    assume "(\<forall>i < ds_size ds. \<exists>x. getitem dec ds (int i) = Inr x) \<and>
         getitem dec ds (int (ds_size ds)) = Inl IndexError"
    then show "length gold = ds_size ds"
      using gold_from_length_unique [OF g, of "ds_size ds"] by blast
  next
    fix xs
    assume "ds_data ds = Some xs \<and> xs \<noteq> []"
    with gold_from_eager_length [of ds xs 0 MARKS dec gold] g
    show "length gold = length xs" by simp
  next
    fix f32 fl sz
    assume a: "0 < sz \<and> dataset_init dec f32 fl sz False = Some (Inr ds)"
    then have "dataset_init dec f32 fl sz False = Some (Inr ds)" by simp
    from dataset_init_eager [OF this] obtain xs where s: "ds_size ds = sz"
      and xs: "ds_data ds = Some xs" "length xs = sz" by blast
    with a have "xs \<noteq> []" by auto
    with gold_from_eager_length [of ds xs 0 MARKS dec gold] g xs
    have "length gold = sz" by simp
    with s show "length gold = sz" "ds_size ds = sz" by simp_all
  }
qed

theorem evaluate_size_check_witness:
  "\<exists>eager lazy.
     dataset_init (\<lambda>bs. Inr bs) (\<lambda>_. 0)
       [0x23, 0, 0, 0, 0, 0, 0, 0, 1, 2, 3, 4,
        0x0A, 0x21,
        0x0A, 0x0F, 0x0A, 0x05, 0x69, 0x6D, 0x61, 0x67, 0x65, 0x12, 0x06, 0x0A, 0x04, 0x0A, 0x02, 0x01, 0x02,
        0x0A, 0x0E, 0x0A, 0x05, 0x6D, 0x61, 0x72, 0x6B, 0x73, 0x12, 0x05, 0x1A, 0x03, 0x0A, 0x01, 0x03,
        5, 6, 7, 8] 1 False = Some (Inr eager) \<and>
     ds_size eager = 1 \<and>
     gold_from [''<pad>'', ''barline'', ''clef-C1'', ''clef-C2''] (\<lambda>bs. Inr bs) eager 0 =
       Inr [[''clef-C2'']] \<and>
     getitem (\<lambda>bs. Inr bs) eager 1 = Inl IndexError \<and>
     evaluate [''<pad>'', ''barline'', ''clef-C1'', ''clef-C2''] (\<lambda>bs. Inr bs) eager [] =
       Inl (RuntimeError 0 1) \<and>
     evaluate [''<pad>'', ''barline'', ''clef-C1'', ''clef-C2''] (\<lambda>bs. Inr bs) eager
       [[''clef-C2''], [''barline'']] = Inl (RuntimeError 2 1) \<and>
     evaluate [''<pad>'', ''barline'', ''clef-C1'', ''clef-C2''] (\<lambda>bs. Inr bs) eager
       [[''barline'']] = Inr (Some 100) \<and>
     dataset_init (\<lambda>bs. Inr bs) (\<lambda>_. 0)
       [0x23, 0, 0, 0, 0, 0, 0, 0, 1, 2, 3, 4,
        0x0A, 0x21,
        0x0A, 0x0F, 0x0A, 0x05, 0x69, 0x6D, 0x61, 0x67, 0x65, 0x12, 0x06, 0x0A, 0x04, 0x0A, 0x02, 0x01, 0x02,
        0x0A, 0x0E, 0x0A, 0x05, 0x6D, 0x61, 0x72, 0x6B, 0x73, 0x12, 0x05, 0x1A, 0x03, 0x0A, 0x01, 0x03,
        5, 6, 7, 8] 1 True = Some (Inr lazy) \<and>
     ds_size lazy = 1 \<and>
     evaluate [''<pad>'', ''barline'', ''clef-C1'', ''clef-C2''] (\<lambda>bs. Inr bs) lazy [] =
       Inl (RuntimeError 0 1)"
proof -
  let ?dec = "(\<lambda>bs. Inr bs) :: byte list \<Rightarrow> error + byte list"
  let ?M = "[''<pad>'', ''barline'', ''clef-C1'', ''clef-C2'']"
  let ?fl = "[0x23, 0, 0, 0, 0, 0, 0, 0, 1, 2, 3, 4,
        0x0A, 0x21,
        0x0A, 0x0F, 0x0A, 0x05, 0x69, 0x6D, 0x61, 0x67, 0x65, 0x12, 0x06, 0x0A, 0x04, 0x0A, 0x02, 0x01, 0x02,
        0x0A, 0x0E, 0x0A, 0x05, 0x6D, 0x61, 0x72, 0x6B, 0x73, 0x12, 0x05, 0x1A, 0x03, 0x0A, 0x01, 0x03,
        5, 6, 7, 8] :: byte list"
  have "(case dataset_init ?dec (\<lambda>_. 0) ?fl 1 False of
           Some (Inr d) \<Rightarrow> gold_from ?M ?dec d 0 = Inr [[''clef-C2'']]
         | _ \<Rightarrow> False)"
    by code_simp
  then obtain eager where e: "dataset_init ?dec (\<lambda>_. 0) ?fl 1 False = Some (Inr eager)"
    and g: "gold_from ?M ?dec eager 0 = Inr [[''clef-C2'']]"
    by (auto split: option.splits sum.splits)
  have "(case dataset_init ?dec (\<lambda>_. 0) ?fl 1 True of
           Some (Inr d) \<Rightarrow> gold_from ?M ?dec d 0 = Inr [[''clef-C2'']] \<and> ds_size d = 1 \<and>
             getitem ?dec d 0 = Inr \<lparr>image = [1, 2], marks = [3]\<rparr> \<and>
             getitem ?dec d 1 = Inl IndexError
         | _ \<Rightarrow> False)"
    by code_simp
  then obtain lazy where l: "dataset_init ?dec (\<lambda>_. 0) ?fl 1 True = Some (Inr lazy)"
    and gl: "gold_from ?M ?dec lazy 0 = Inr [[''clef-C2'']]" and sl: "ds_size lazy = 1"
    and l0: "getitem ?dec lazy 0 = Inr \<lparr>image = [1, 2], marks = [3]\<rparr>"
    and l1: "getitem ?dec lazy 1 = Inl IndexError"
    by (auto split: option.splits sum.splits)
  note t0 = evaluate_size_check [where predictions = "[]", THEN conjunct2, THEN spec, THEN mp, OF g]
  note t1 = evaluate_size_check [where predictions = "[[''barline'']]",
      THEN conjunct2, THEN spec, THEN mp, OF g]
  note t2 = evaluate_size_check [where predictions = "[[''clef-C2''], [''barline'']]",
      THEN conjunct2, THEN spec, THEN mp, OF g]
  note u0 = evaluate_size_check [where predictions = "[]", THEN conjunct2, THEN spec, THEN mp, OF gl]
  have n0: "length ([] :: string list list) \<noteq> length [[''clef-C2'']]" by simp
  have n2: "length [[''clef-C2''], [''barline'']] \<noteq> length [[''clef-C2'']]" by simp
  have n1: "length [[''barline'']] = length [[''clef-C2'']]" by simp
  from t0 [THEN conjunct1, THEN mp, OF n0]
  have 0: "evaluate ?M ?dec eager [] = Inl (RuntimeError 0 1)" by simp
  from t2 [THEN conjunct1, THEN mp, OF n2]
  have 2: "evaluate ?M ?dec eager [[''clef-C2''], [''barline'']] = Inl (RuntimeError 2 1)" by simp
  from t1 [THEN conjunct2, THEN conjunct1, THEN mp, OF n1, THEN conjunct1]
  have 1: "evaluate ?M ?dec eager [[''barline'']] = Inr (Some 100)"
    by (simp add: example_score_def)
  from t0 [THEN conjunct2, THEN conjunct2, THEN conjunct2, THEN conjunct1]
  have stop: "getitem ?dec eager 1 = Inl IndexError" by simp
  have h: "0 < (1 :: nat) \<and> dataset_init ?dec (\<lambda>_. 0) ?fl 1 False = Some (Inr eager)"
    using e by simp
  from t0 [THEN conjunct2, THEN conjunct2, THEN conjunct2, THEN conjunct2, THEN conjunct2,
      THEN conjunct2, THEN spec, THEN spec, THEN spec, THEN mp, OF h]
  have sz: "ds_size eager = 1" by simp
  have hl: "(\<forall>i < ds_size lazy. \<exists>x. getitem ?dec lazy (int i) = Inr x) \<and>
      getitem ?dec lazy (int (ds_size lazy)) = Inl IndexError"
    using l0 l1 sl by simp
  from u0 [THEN conjunct2, THEN conjunct2, THEN conjunct2, THEN conjunct2, THEN conjunct1,
      THEN mp, OF hl]
  have "length [[''clef-C2'']] = ds_size lazy" .
  have nl: "length ([] :: string list list) \<noteq> length [[''clef-C2'']]" by simp
  from u0 [THEN conjunct1, THEN mp, OF nl]
  have 3: "evaluate ?M ?dec lazy [] = Inl (RuntimeError 0 1)" by simp
  from e sz g stop 0 2 1 l sl 3 show ?thesis by blast
qed

text \<open>
  C9: when the dataset is built from a file and a size with all examples decoded at
  construction, the dataset built from the same file and size that decodes on demand
  exists as well, and for every index from 0 below the size \<open>__getitem__\<close> returns the
  same element in both.
\<close>

theorem eager_equals_lazy:
  assumes "dataset_init dec f32 fl sz False = Some (Inr eager)"
  shows "\<exists>lazy. dataset_init dec f32 fl sz True = Some (Inr lazy) \<and>
     (\<forall>i. 0 \<le> i \<and> i < int sz \<longrightarrow>
        getitem dec eager i = getitem dec lazy i \<and> (\<exists>x. getitem dec lazy i = Inr x))"
proof -
  from assms obtain st xs where st: "load_data f32 fl sz = Some (Inr st)"
    and xs: "decode_all dec st [0 ..< sz] = Inr xs"
    and e: "eager = \<lparr>ds_size = sz, ds_data = Some xs, ds_store = None\<rparr>"
    by (auto simp: dataset_init_def split: option.splits sum.splits)
  let ?lazy = "\<lparr>ds_size = sz, ds_data = None, ds_store = Some st\<rparr> :: 'a dataset"
  have l: "dataset_init dec f32 fl sz True = Some (Inr ?lazy)"
    using st by (simp add: dataset_init_def)
  from decode_all_nth [OF xs] have len: "length xs = sz"
    and nth: "\<And>j. j < sz \<Longrightarrow> decode_item dec st (int j) = Inr (xs ! j)"
    by auto
  have "getitem dec eager i = getitem dec ?lazy i \<and> (\<exists>x. getitem dec ?lazy i = Inr x)"
    if "0 \<le> i \<and> i < int sz" for i
  proof -
    from that have j: "nat i < sz" "int (nat i) = i" by auto
    from that len have ne: "xs \<noteq> []" by auto
    have "getitem dec eager i = Inr (xs ! nat i)"
      using that len ne by (simp add: getitem_def e py_index_def)
    moreover have "getitem dec ?lazy i = Inr (xs ! nat i)"
      using nth [OF j(1)] j(2) by (simp add: getitem_def)
    ultimately show ?thesis by simp
  qed
  with l show ?thesis by blast
qed

theorem eager_equals_lazy_witness:
  "\<exists>eager lazy.
     dataset_init (\<lambda>bs. Inr bs) (\<lambda>_. 0)
       [0x23, 0, 0, 0, 0, 0, 0, 0, 1, 2, 3, 4,
        0x0A, 0x21,
        0x0A, 0x0F, 0x0A, 0x05, 0x69, 0x6D, 0x61, 0x67, 0x65, 0x12, 0x06, 0x0A, 0x04, 0x0A, 0x02, 0x01, 0x02,
        0x0A, 0x0E, 0x0A, 0x05, 0x6D, 0x61, 0x72, 0x6B, 0x73, 0x12, 0x05, 0x1A, 0x03, 0x0A, 0x01, 0x03,
        5, 6, 7, 8] 1 False = Some (Inr eager) \<and>
     dataset_init (\<lambda>bs. Inr bs) (\<lambda>_. 0)
       [0x23, 0, 0, 0, 0, 0, 0, 0, 1, 2, 3, 4,
        0x0A, 0x21,
        0x0A, 0x0F, 0x0A, 0x05, 0x69, 0x6D, 0x61, 0x67, 0x65, 0x12, 0x06, 0x0A, 0x04, 0x0A, 0x02, 0x01, 0x02,
        0x0A, 0x0E, 0x0A, 0x05, 0x6D, 0x61, 0x72, 0x6B, 0x73, 0x12, 0x05, 0x1A, 0x03, 0x0A, 0x01, 0x03,
        5, 6, 7, 8] 1 True = Some (Inr lazy) \<and>
     getitem (\<lambda>bs. Inr bs) eager 0 = getitem (\<lambda>bs. Inr bs) lazy 0 \<and>
     getitem (\<lambda>bs. Inr bs) lazy 0 = Inr \<lparr>image = [1, 2], marks = [3]\<rparr>"
proof -
  let ?dec = "(\<lambda>bs. Inr bs) :: byte list \<Rightarrow> error + byte list"
  let ?fl = "[0x23, 0, 0, 0, 0, 0, 0, 0, 1, 2, 3, 4,
        0x0A, 0x21,
        0x0A, 0x0F, 0x0A, 0x05, 0x69, 0x6D, 0x61, 0x67, 0x65, 0x12, 0x06, 0x0A, 0x04, 0x0A, 0x02, 0x01, 0x02,
        0x0A, 0x0E, 0x0A, 0x05, 0x6D, 0x61, 0x72, 0x6B, 0x73, 0x12, 0x05, 0x1A, 0x03, 0x0A, 0x01, 0x03,
        5, 6, 7, 8] :: byte list"
  have "(case dataset_init ?dec (\<lambda>_. 0) ?fl 1 False of Some (Inr e) \<Rightarrow> True | _ \<Rightarrow> False)"
    by code_simp
  then obtain eager where e: "dataset_init ?dec (\<lambda>_. 0) ?fl 1 False = Some (Inr eager)"
    by (auto split: option.splits sum.splits)
  from eager_equals_lazy [OF e] obtain lazy where
    l: "dataset_init ?dec (\<lambda>_. 0) ?fl 1 True = Some (Inr lazy)"
    and a: "\<forall>i. 0 \<le> i \<and> i < int 1 \<longrightarrow>
        getitem ?dec eager i = getitem ?dec lazy i \<and> (\<exists>x. getitem ?dec lazy i = Inr x)"
    by blast
  from a have eq: "getitem ?dec eager 0 = getitem ?dec lazy 0" by simp
  have "(case dataset_init ?dec (\<lambda>_. 0) ?fl 1 True of
           Some (Inr d) \<Rightarrow> getitem ?dec d 0 = Inr \<lparr>image = [1, 2], marks = [3]\<rparr>
         | _ \<Rightarrow> False)"
    by code_simp
  with l have v: "getitem ?dec lazy 0 = Inr \<lparr>image = [1, 2], marks = [3]\<rparr>" by simp
  from e l eq v show ?thesis by blast
qed

text \<open>
  C10: \<open>update\<close> with \<open>n\<close> predictions and \<open>m\<close> gold sequences raises nothing (it has
  no error result: \<open>zip\<close> stops at the shorter list, and the divisor is never 0). It does
  what it does on the first \<open>min n m\<close> sequences of each list: exactly \<open>min n m\<close> scores
  are recorded, those of the pairs at the positions below \<open>min n m\<close>.
\<close>

theorem update_scores_common_prefix:
  "update m y_preds y_trues =
     update m (take (min (length y_preds) (length y_trues)) y_preds)
              (take (min (length y_preds) (length y_trues)) y_trues) \<and>
   weight (update m y_preds y_trues) = weight m + of_nat (min (length y_preds) (length y_trues)) \<and>
   mean_value (update m y_preds y_trues) =
     mean_value m + (\<Sum>j < min (length y_preds) (length y_trues).
                        example_score (ignore_index m) (y_preds ! j) (y_trues ! j))"
proof (intro conjI)
  let ?k = "min (length y_preds) (length y_trues)"
  have z: "zip (take ?k y_preds) (take ?k y_trues) = zip y_preds y_trues"
    by (simp add: take_zip [symmetric])
  show "update m y_preds y_trues = update m (take ?k y_preds) (take ?k y_trues)"
    by (simp only: update_def z)
  show "weight (update m y_preds y_trues) = weight m + of_nat ?k"
    by (simp add: update_eq batch_scores_def)
  have "sum_list (batch_scores (ignore_index m) (y_preds, y_trues)) =
        (\<Sum>j < ?k. example_score (ignore_index m) (y_preds ! j) (y_trues ! j))"
    by (simp add: batch_scores_def sum_list_sum_nth atLeast0LessThan)
  then show "mean_value (update m y_preds y_trues) =
     mean_value m + (\<Sum>j < ?k. example_score (ignore_index m) (y_preds ! j) (y_trues ! j))"
    by (simp add: update_eq)
qed

end
